theory Spec2Isabelle
  imports Complex_Main "HOL-Library.Multiset"
begin

section \<open>General helpers of neuralmagicML.utils.helpers\<close>

text \<open>
  The numeric helpers \<open>interpolate\<close> and \<open>interpolated_integral\<close> are embedded over the
  numbers Python computes with: an \<open>int\<close> is an integer, a \<open>float\<close> is an IEEE 754 binary64
  number, with its rounding, its infinities and NaN. Every exception the source can
  raise on such input is a value of \<open>error\<close>; a function that can raise returns
  \<open>error + 'a\<close> with \<open>Inl\<close> the exception.
\<close>

datatype error = ValueError string | ZeroDivisionError | TypeError | OverflowError

subsection \<open>convert_to_bool\<close>

text \<open>
  The values \<open>convert_to_bool\<close> is applied to: \<open>isinstance(val, str)\<close> separates strings
  from everything else, and \<open>bool(val)\<close> is Python's truth value.
\<close>

datatype py_value = PyNone | PyBool bool | PyInt int | PyStr string

fun py_bool :: "py_value \<Rightarrow> bool" where
  "py_bool PyNone = False"
| "py_bool (PyBool b) = b"
| "py_bool (PyInt i) = (i \<noteq> 0)"
| "py_bool (PyStr s) = (s \<noteq> [])"

text \<open>\<open>str.lower\<close> on the characters a \<^typ>\<open>char\<close> holds: A to Z go to a to z.\<close>

definition lower_char :: "char \<Rightarrow> char" where
  "lower_char c =
     (case map_of (zip ''ABCDEFGHIJKLMNOPQRSTUVWXYZ'' ''abcdefghijklmnopqrstuvwxyz'') c of
        Some d \<Rightarrow> d
      | None \<Rightarrow> c)"

definition lower :: "string \<Rightarrow> string" where
  "lower s = map lower_char s"

text \<open>\<open>needle in s\<close> on strings: \<open>needle\<close> occurs in \<open>s\<close> as a contiguous substring.\<close>

definition str_in :: "string \<Rightarrow> string \<Rightarrow> bool" where
  "str_in needle s =
     list_ex (\<lambda>i. take (length needle) (drop i s) = needle) [0..<Suc (length s)]"

fun convert_to_bool :: "py_value \<Rightarrow> bool" where
  "convert_to_bool (PyStr val) =
     (py_bool (PyStr val) \<and> \<not> str_in ''f'' (lower val) \<and> \<not> str_in ''0'' (lower val))"
| "convert_to_bool val = py_bool val"

subsection \<open>Python numbers: binary64 floats and integers\<close>

text \<open>\<open>round\<close> with one argument: to the nearest integer, a tie to the even one.\<close>

definition py_round :: "real \<Rightarrow> int" where
  "py_round x =
     (let f = \<lfloor>x\<rfloor>; d = x - of_int f
      in if d < 1 / 2 then f
         else if d > 1 / 2 then f + 1
         else if even f then f else f + 1)"

text \<open>
  A Python \<open>float\<close> is an IEEE 754 binary64 number: a finite value, an infinity or NaN.
  The two zeros are one value here (they compare equal, and the helpers never look at
  the sign of a zero). A finite value is given by the real number it stands for;
  \<open>is_float64\<close> says which reals are binary64 numbers.
\<close>

datatype float64 = Finite real | PosInf | NegInf | NaN

definition pow2 :: "int \<Rightarrow> real" where
  "pow2 k = (if k \<ge> 0 then 2 ^ nat k else 1 / 2 ^ nat (- k))"

text \<open>
  The exponent of the binade of \<open>x\<close>, not below that of the subnormal numbers, and the
  distance of neighbouring binary64 numbers there (53 bits of precision).
\<close>

definition binade :: "real \<Rightarrow> int" where
  "binade x = max \<lfloor>log 2 \<bar>x\<bar>\<rfloor> (- 1022)"

definition ulp :: "real \<Rightarrow> real" where
  "ulp x = pow2 (binade x - 52)"

text \<open>
  Rounding of an exact result to binary64: to the nearest number, a tie to the even
  significand, overflow to an infinity (the default rounding of the hardware, which is
  what CPython computes with).
\<close>

definition round64 :: "real \<Rightarrow> float64" where
  "round64 x =
     (if x = 0 then Finite 0
      else
        let r = of_int (py_round (x / ulp x)) * ulp x
        in if r \<ge> 2 ^ 1024 then PosInf
           else if r \<le> - (2 ^ 1024) then NegInf
           else Finite r)"

definition is_float64 :: "real \<Rightarrow> bool" where
  "is_float64 x = (round64 x = Finite x)"

text \<open>The operations of IEEE 754 on binary64, as \<open>+\<close>, \<open>-\<close>, \<open>*\<close> of two floats compute them.\<close>

fun sign_of :: "float64 \<Rightarrow> real" where
  "sign_of (Finite a) = sgn a"
| "sign_of PosInf = 1"
| "sign_of NegInf = - 1"
| "sign_of NaN = 0"

definition inf_of_sign :: "real \<Rightarrow> float64" where
  "inf_of_sign s = (if s > 0 then PosInf else if s < 0 then NegInf else NaN)"

fun fneg :: "float64 \<Rightarrow> float64" where
  "fneg (Finite a) = Finite (- a)"
| "fneg PosInf = NegInf"
| "fneg NegInf = PosInf"
| "fneg NaN = NaN"

fun fadd :: "float64 \<Rightarrow> float64 \<Rightarrow> float64" where
  "fadd (Finite a) (Finite b) = round64 (a + b)"
| "fadd NaN y = NaN"
| "fadd x NaN = NaN"
| "fadd PosInf NegInf = NaN"
| "fadd NegInf PosInf = NaN"
| "fadd PosInf y = PosInf"
| "fadd NegInf y = NegInf"
| "fadd x PosInf = PosInf"
| "fadd x NegInf = NegInf"

definition fsub :: "float64 \<Rightarrow> float64 \<Rightarrow> float64" where
  "fsub x y = fadd x (fneg y)"

fun fmul :: "float64 \<Rightarrow> float64 \<Rightarrow> float64" where
  "fmul (Finite a) (Finite b) = round64 (a * b)"
| "fmul NaN y = NaN"
| "fmul x NaN = NaN"
| "fmul x y = inf_of_sign (sign_of x * sign_of y)"

text \<open>The quotient by a divisor that is not zero.\<close>

fun fdiv_nz :: "float64 \<Rightarrow> float64 \<Rightarrow> float64" where
  "fdiv_nz (Finite a) (Finite b) = round64 (a / b)"
| "fdiv_nz NaN y = NaN"
| "fdiv_nz x NaN = NaN"
| "fdiv_nz (Finite a) y = Finite 0"
| "fdiv_nz x (Finite b) = inf_of_sign (sign_of x * sgn b)"
| "fdiv_nz x y = NaN"

text \<open>\<open>x <= y\<close> on floats: false as soon as one side is NaN.\<close>

fun fle :: "float64 \<Rightarrow> float64 \<Rightarrow> bool" where
  "fle (Finite a) (Finite b) = (a \<le> b)"
| "fle NaN y = False"
| "fle x NaN = False"
| "fle NegInf y = True"
| "fle x PosInf = True"
| "fle x y = False"

text \<open>\<open>x / y\<close> on floats raises for a zero divisor, whatever the dividend.\<close>

definition fdiv :: "float64 \<Rightarrow> float64 \<Rightarrow> error + float64" where
  "fdiv x y = (if y = Finite 0 then Inl ZeroDivisionError else Inr (fdiv_nz x y))"

text \<open>
  A number handed to the helpers is an \<open>int\<close> or a \<open>float\<close>. Arithmetic of two ints is
  exact; as soon as one operand is a float the other is converted, which rounds an int
  to the nearest float and raises \<open>OverflowError\<close> when it is too large.
\<close>

datatype number = PInt int | PFloat float64

definition float_of_int :: "int \<Rightarrow> error + float64" where
  "float_of_int i =
     (case round64 (of_int i) of Finite r \<Rightarrow> Inr (Finite r) | _ \<Rightarrow> Inl OverflowError)"

fun to_float :: "number \<Rightarrow> error + float64" where
  "to_float (PInt i) = float_of_int i"
| "to_float (PFloat x) = Inr x"

definition float_op ::
  "(float64 \<Rightarrow> float64 \<Rightarrow> error + 'a) \<Rightarrow> number \<Rightarrow> number \<Rightarrow> error + 'a" where
  "float_op f x y =
     (case to_float x of
        Inl e \<Rightarrow> Inl e
      | Inr a \<Rightarrow> (case to_float y of Inl e \<Rightarrow> Inl e | Inr b \<Rightarrow> f a b))"

fun num_sub :: "number \<Rightarrow> number \<Rightarrow> error + number" where
  "num_sub (PInt a) (PInt b) = Inr (PInt (a - b))"
| "num_sub x y = float_op (\<lambda>a b. Inr (PFloat (fsub a b))) x y"

fun num_add :: "number \<Rightarrow> number \<Rightarrow> error + number" where
  "num_add (PInt a) (PInt b) = Inr (PInt (a + b))"
| "num_add x y = float_op (\<lambda>a b. Inr (PFloat (fadd a b))) x y"

fun num_mul :: "number \<Rightarrow> number \<Rightarrow> error + number" where
  "num_mul (PInt a) (PInt b) = Inr (PInt (a * b))"
| "num_mul x y = float_op (\<lambda>a b. Inr (PFloat (fmul a b))) x y"

text \<open>
  True division always gives a float; of two ints it is the correctly rounded exact
  quotient, with \<open>OverflowError\<close> when that is too large.
\<close>

fun num_truediv :: "number \<Rightarrow> number \<Rightarrow> error + float64" where
  "num_truediv (PInt a) (PInt b) =
     (if b = 0 then Inl ZeroDivisionError
      else (case round64 (of_int a / of_int b) of
              Finite r \<Rightarrow> Inr (Finite r)
            | _ \<Rightarrow> Inl OverflowError))"
| "num_truediv x y = float_op fdiv x y"

text \<open>\<open>x == y\<close> on numbers compares the exact values; NaN equals nothing.\<close>

fun py_eq :: "number \<Rightarrow> number \<Rightarrow> bool" where
  "py_eq (PInt a) (PInt b) = (a = b)"
| "py_eq (PInt a) (PFloat (Finite b)) = (of_int a = b)"
| "py_eq (PFloat (Finite a)) (PInt b) = (a = of_int b)"
| "py_eq (PFloat NaN) y = False"
| "py_eq x (PFloat NaN) = False"
| "py_eq (PFloat x) (PFloat y) = (x = y)"
| "py_eq x y = False"

text \<open>
  A number that arithmetic with a float takes at its exact value: a finite float, or an
  int that a float holds without rounding.
\<close>

fun exact_float :: "number \<Rightarrow> bool" where
  "exact_float (PInt i) = is_float64 (of_int i)"
| "exact_float (PFloat (Finite a)) = is_float64 a"
| "exact_float x = False"

fun is_int :: "number \<Rightarrow> bool" where
  "is_int (PInt a) = True"
| "is_int x = False"

fun finite_num :: "number \<Rightarrow> bool" where
  "finite_num (PInt a) = True"
| "finite_num (PFloat (Finite a)) = True"
| "finite_num x = False"

text \<open>
  \<open>x ** y\<close> of a float \<open>x\<close> and a positive finite exponent \<open>y\<close>, the only exponents the
  helpers use. CPython settles NaN, the infinities, zero, one and a negative base by
  itself and calls the \<open>pow\<close> of the C library on a positive finite base; that function
  is the parameter \<open>pw\<close>. A negative base under a fractional exponent gives a complex
  number; an infinite result of \<open>pw\<close> is raised as \<open>OverflowError\<close>.
\<close>

datatype power = PowFloat float64 | PowComplex

definition float_pow :: "(real \<Rightarrow> real \<Rightarrow> float64) \<Rightarrow> float64 \<Rightarrow> real \<Rightarrow> error + power" where
  "float_pow pw x y =
     (let odd_int = (y = of_int \<lfloor>y\<rfloor> \<and> odd \<lfloor>y\<rfloor>)
      in case x of
           NaN \<Rightarrow> Inr (PowFloat NaN)
         | PosInf \<Rightarrow> Inr (PowFloat PosInf)
         | NegInf \<Rightarrow> Inr (PowFloat (if odd_int then NegInf else PosInf))
         | Finite a \<Rightarrow>
             if a = 0 then Inr (PowFloat (Finite 0))
             else if a < 0 \<and> y \<noteq> of_int \<lfloor>y\<rfloor> then Inr PowComplex
             else
               let negate = (a < 0 \<and> odd_int);
                   r = (if \<bar>a\<bar> = 1 then Finite 1 else pw \<bar>a\<bar> y)
               in if r = PosInf \<or> r = NegInf then Inl OverflowError
                  else Inr (PowFloat (if negate then fneg r else r)))"

text \<open>
  What is asked of the library's \<open>pow\<close> where a property depends on it: the result
  does not pass a binary64 number that bounds the exact power (an error below one unit
  in the last place). The correctly rounded power is one such function.
\<close>

definition faithful_pow :: "(real \<Rightarrow> real \<Rightarrow> float64) \<Rightarrow> bool" where
  "faithful_pow pw =
     (\<forall>a y b. 0 < a \<and> is_float64 b \<longrightarrow>
        (a powr y \<le> b \<longrightarrow> fle (pw a y) (Finite b))
        \<and> (b \<le> a powr y \<longrightarrow> fle (Finite b) (pw a y)))"

definition pow_nearest :: "real \<Rightarrow> real \<Rightarrow> float64" where
  "pow_nearest a y = round64 (a powr y)"

subsection \<open>interpolated_integral\<close>

text \<open>
  A sample is a pair of finite floats, each given by its value (an int stands for the
  float of the same value, which computes the same as long as the ints of the loop body
  stay below \<open>2 ** 53\<close>). One pass of the loop body at position \<open>index\<close> of the (already
  sorted) list: the last position is skipped by the \<open>continue\<close>, every other one adds the
  area up to its successor, each operation in binary64.
\<close>

definition integral_step :: "(real \<times> real) list \<Rightarrow> nat \<Rightarrow> float64 \<Rightarrow> float64" where
  "integral_step measurements index integral =
     (case measurements ! index of (x_val, y_val) \<Rightarrow>
        if index \<ge> length measurements - 1 then integral
        else (case measurements ! (index + 1) of (x_next, y_next) \<Rightarrow>
          let x_dist = fsub (Finite x_next) (Finite x_val);
              area = fadd (fmul (Finite y_val) x_dist)
                       (fdiv_nz (fmul (fsub (Finite y_next) (Finite y_val)) x_dist) (Finite 2))
          in fadd integral area))"

text \<open>
  The function sorts its argument in place, so the model returns the value together
  with the list the caller holds afterwards. \<open>list.sort\<close> is stable, as \<open>sort_key\<close> is.
\<close>

definition interpolated_integral :: "(real \<times> real) list \<Rightarrow> float64 \<times> (real \<times> real) list" where
  "interpolated_integral measurements =
     (if length measurements < 1 then (Finite 0, measurements)
      else if length measurements = 1 then (Finite (snd (measurements ! 0)), measurements)
      else
        let sorted_ms = sort_key fst measurements
        in (fold (integral_step sorted_ms) [0..<length sorted_ms] (Finite 0), sorted_ms))"

text \<open>The spec's reading: the trapezoid between two consecutive samples, summed.\<close>

definition trapezoid :: "real \<times> real \<Rightarrow> real \<times> real \<Rightarrow> real" where
  "trapezoid p q = (snd p + snd q) / 2 * (fst q - fst p)"

definition trapezoid_sum :: "(real \<times> real) list \<Rightarrow> real" where
  "trapezoid_sum ms = (\<Sum>i < length ms - 1. trapezoid (ms ! i) (ms ! (i + 1)))"

text \<open>
  A run of the loop that rounds nowhere: at every position the exact value of each
  operation of the body, and of the sum so far, is a binary64 number.
\<close>

definition exact_area :: "real \<times> real \<Rightarrow> real \<times> real \<Rightarrow> bool" where
  "exact_area p q =
     (let dx = fst q - fst p; dy = snd q - snd p
      in list_all is_float64
           [dx, snd p * dx, dy, dy * dx, dy * dx / 2, snd p * dx + dy * dx / 2])"

definition exact_run :: "(real \<times> real) list \<Rightarrow> bool" where
  "exact_run ms =
     list_all (\<lambda>k. exact_area (ms ! k) (ms ! (k + 1))
                  \<and> is_float64 (\<Sum>i < Suc k. trapezoid (ms ! i) (ms ! (i + 1))))
       [0..<length ms - 1]"

subsection \<open>interpolate\<close>

definition INTERPOLATION_FUNCS :: "string list" where
  "INTERPOLATION_FUNCS = [''linear'', ''cubic'', ''inverse_cubic'']"

text \<open>\<open>sys.float_info.epsilon\<close> of a binary64 float.\<close>

definition float_epsilon :: real where
  "float_epsilon = 1 / 2 ^ 52"

text \<open>
  \<open>str\<close> of a list of strings, as \<open>format\<close> prints it: the items in single quotes
  (their \<open>repr\<close>; the curve names hold nothing that needs an escape), separated by a
  comma and a blank, in brackets.
\<close>

fun join :: "string \<Rightarrow> string list \<Rightarrow> string" where
  "join sep [] = []"
| "join sep [s] = s"
| "join sep (s # t # ss) = s @ sep @ join sep (t # ss)"

definition str_of_list :: "string list \<Rightarrow> string" where
  "str_of_list ss = ''['' @ join '', '' (map (\<lambda>s. [CHR 0x27] @ s @ [CHR 0x27]) ss) @ '']''"

text \<open>\<open>x_per = (x_cur - x0) / (x1 - x0)\<close>, the operands evaluated from left to right.\<close>

definition x_per_of :: "number \<Rightarrow> number \<Rightarrow> number \<Rightarrow> error + float64" where
  "x_per_of x_cur x0 x1 =
     (case num_sub x_cur x0 of
        Inl e \<Rightarrow> Inl e
      | Inr a \<Rightarrow> (case num_sub x1 x0 of Inl e \<Rightarrow> Inl e | Inr b \<Rightarrow> num_truediv a b))"

text \<open>
  \<open>1 - (1 - x_per) ** y\<close>; the int 1 is the float 1.0 exactly. A complex power makes
  \<open>y_per\<close> complex, and the comparison of \<open>y_per\<close> with a float that follows raises
  \<open>TypeError\<close>.
\<close>

definition curve :: "(real \<Rightarrow> real \<Rightarrow> float64) \<Rightarrow> float64 \<Rightarrow> real \<Rightarrow> error + float64" where
  "curve pw x_per y =
     (case float_pow pw (fsub (Finite 1) x_per) y of
        Inl e \<Rightarrow> Inl e
      | Inr PowComplex \<Rightarrow> Inl TypeError
      | Inr (PowFloat p) \<Rightarrow> Inr (fsub (Finite 1) p))"

text \<open>The exponent \<open>1 / 3\<close> of two ints: the float nearest to one third.\<close>

definition third :: real where
  "third = 6004799503160661 / 2 ^ 54"

text \<open>The \<open>if/elif\<close> chain that maps \<open>x_per\<close> to \<open>y_per\<close>.\<close>

definition y_per_of :: "(real \<Rightarrow> real \<Rightarrow> float64) \<Rightarrow> string \<Rightarrow> float64 \<Rightarrow> error + float64" where
  "y_per_of pw inter_func x_per =
     (if inter_func = ''linear'' then Inr x_per
      else if inter_func = ''cubic'' then curve pw x_per 3
      else if inter_func = ''inverse_cubic'' then curve pw x_per third
      else Inl (ValueError
             (''unsupported inter_func given of '' @ inter_func @ '' in interpolate'')))"

text \<open>The last line: \<open>y_per * (y1 - y0) + y0\<close>.\<close>

definition scale :: "float64 \<Rightarrow> number \<Rightarrow> number \<Rightarrow> error + number" where
  "scale y_per y0 y1 =
     (case num_sub y1 y0 of
        Inl e \<Rightarrow> Inl e
      | Inr d \<Rightarrow> (case num_mul (PFloat y_per) d of
                   Inl e \<Rightarrow> Inl e
                 | Inr m \<Rightarrow> num_add m y0))"

text \<open>
  The two comparisons of \<open>interpolate\<close>: \<open>v <= 0.0 + epsilon\<close>, the epsilon band of 0,
  and \<open>v >= 1.0 - epsilon\<close>, the epsilon band of 1.
\<close>

definition band0 :: "float64 \<Rightarrow> bool" where
  "band0 v = fle v (fadd (Finite 0) (Finite float_epsilon))"

definition band1 :: "float64 \<Rightarrow> bool" where
  "band1 v = fle (fsub (Finite 1) (Finite float_epsilon)) v"

definition interpolate ::
  "(real \<Rightarrow> real \<Rightarrow> float64) \<Rightarrow> number \<Rightarrow> number \<Rightarrow> number \<Rightarrow> number \<Rightarrow> number \<Rightarrow> string
     \<Rightarrow> error + number" where
  "interpolate pw x_cur x0 x1 y0 y1 inter_func =
     (if inter_func \<notin> set INTERPOLATION_FUNCS then
        Inl (ValueError (''unsupported inter_func given of '' @ inter_func
                         @ '' must be one of '' @ str_of_list INTERPOLATION_FUNCS))
      else
        (case x_per_of x_cur x0 x1 of
           Inl e \<Rightarrow> Inl e
         | Inr x_per \<Rightarrow>
             (case y_per_of pw inter_func x_per of
                Inl e \<Rightarrow> Inl e
              | Inr y_per \<Rightarrow>
                  if band0 y_per then Inr y0
                  else if band1 y_per then Inr y1
                  else scale y_per y0 y1)))"

text \<open>
  Two numbers whose difference is computed from their exact values: both ints, or each
  one exact as a float.
\<close>

definition exact_operands :: "number \<Rightarrow> number \<Rightarrow> bool" where
  "exact_operands x y = ((is_int x \<and> is_int y) \<or> (exact_float x \<and> exact_float y))"

subsection \<open>bucket_iterable\<close>

text \<open>
  \<open>round\<close> with one argument is \<open>py_round\<close> above: to the nearest integer, a tie to the
  even one.
\<close>

text \<open>The slices \<open>xs[:n]\<close> and \<open>xs[n:]\<close>; a negative \<open>n\<close> counts from the end.\<close>

definition slice_to :: "int \<Rightarrow> 'a list \<Rightarrow> 'a list" where
  "slice_to n xs = (if n \<ge> 0 then take (nat n) xs else take (length xs - nat (- n)) xs)"

definition slice_from :: "int \<Rightarrow> 'a list \<Rightarrow> 'a list" where
  "slice_from n xs = (if n \<ge> 0 then drop (nat n) xs else drop (length xs - nat (- n)) xs)"

text \<open>
  \<open>list.sort(key, reverse)\<close>: stable; with \<open>reverse\<close> the keys descend and items of equal
  key still keep their order, which is a stable ascending sort of the reversed list,
  reversed.
\<close>

definition list_sort :: "('a \<Rightarrow> 'k::linorder) \<Rightarrow> bool \<Rightarrow> 'a list \<Rightarrow> 'a list" where
  "list_sort key reverse xs =
     (if reverse then rev (sort_key key (rev xs)) else sort_key key xs)"

text \<open>
  The body of \<open>for bucket in range(num_buckets)\<close> on the pair of \<open>val_list\<close> and
  \<open>bucketed_values\<close>.
\<close>

definition bucket_step ::
  "int \<Rightarrow> int \<Rightarrow> int \<Rightarrow> 'a list \<times> (int \<times> 'a) list \<Rightarrow> 'a list \<times> (int \<times> 'a) list" where
  "bucket_step num_buckets buckets_count bucket st =
     (case st of (val_list, bucketed_values) \<Rightarrow>
        let add_vals = (if bucket < num_buckets - 1 then slice_to buckets_count val_list
                        else val_list);
            val_list' = (if bucket < num_buckets - 1 then slice_from buckets_count val_list
                         else [])
        in (val_list', bucketed_values @ map (\<lambda>v. (bucket, v)) add_vals))"

definition range_int :: "int \<Rightarrow> int list" where
  "range_int n = map int [0..<nat n]"

text \<open>
  \<open>sort_key\<close> is total here: the default \<open>None\<close> of the source compares the items
  themselves, which is the key \<open>\<lambda>v. v\<close>. The division by \<open>float(num_buckets)\<close> raises
  for zero buckets.
\<close>

definition bucket_iterable ::
  "'a list \<Rightarrow> int \<Rightarrow> real \<Rightarrow> bool \<Rightarrow> ('a \<Rightarrow> 'k::linorder) \<Rightarrow> error + (int \<times> 'a) list" where
  "bucket_iterable val num_buckets edge_percent sort_highest sort_key_fn =
     (let val_list = list_sort sort_key_fn sort_highest val;
          edge_count = py_round (edge_percent * real (length val_list));
          bucketed_values = (if edge_count > 0
                             then map (\<lambda>v. (- 1, v)) (slice_to edge_count val_list) else []);
          val_list = (if edge_count > 0 then slice_from edge_count val_list else val_list)
      in if num_buckets = 0 then Inl ZeroDivisionError
         else
           let buckets_count = py_round (real (length val_list) / real_of_int num_buckets)
           in Inr (snd (fold (bucket_step num_buckets buckets_count) (range_int num_buckets)
                          (val_list, bucketed_values))))"

subsection \<open>create_unique_dir\<close>

text \<open>\<open>str\<close> of a natural number, and the format \<open>{:04d}\<close>: zero padded to width 4, the
  sign counted in the width.\<close>

fun str_nat :: "nat \<Rightarrow> string" where
  "str_nat n =
     (if n < 10 then [''0123456789'' ! n]
      else str_nat (n div 10) @ [''0123456789'' ! (n mod 10)])"

definition zfill :: "nat \<Rightarrow> string \<Rightarrow> string" where
  "zfill w s = replicate (w - length s) (CHR ''0'') @ s"

definition format_04d :: "int \<Rightarrow> string" where
  "format_04d n =
     (if n < 0 then ''-'' @ zfill 3 (str_nat (nat (- n))) else zfill 4 (str_nat (nat n)))"

text \<open>
  The file system is the set of the paths that exist; the function only reads it, through
  \<open>os.path.exists\<close>, and the model returns it beside the path, as the call leaves it.
  \<open>clean_path\<close> depends on the working directory and the home directory of the process
  and is a parameter. The recursion goes on while the candidates exist, so the function
  is partial: \<open>None\<close> is the run that never returns a path.
\<close>

partial_function (option) create_unique_dir ::
  "(string \<Rightarrow> string) \<Rightarrow> string \<Rightarrow> int \<Rightarrow> string set \<Rightarrow> (string \<times> string set) option" where
  "create_unique_dir clean_path path check_number fs =
     (let check_path = clean_path (path @ ''-'' @ format_04d check_number)
      in if check_path \<notin> fs then Some (check_path, fs)
         else create_unique_dir clean_path path (check_number + 1) fs)"

text \<open>
  Two calls in succession on the same base path with the default \<open>check_number\<close>, the
  second on the file system as the first leaves it.
\<close>

definition create_unique_dir_twice ::
  "(string \<Rightarrow> string) \<Rightarrow> string \<Rightarrow> string set \<Rightarrow> ((string \<times> string) \<times> string set) option" where
  "create_unique_dir_twice clean_path path fs =
     (case create_unique_dir clean_path path 0 fs of
        None \<Rightarrow> None
      | Some (p1, fs1) \<Rightarrow>
          (case create_unique_dir clean_path path 0 fs1 of
             None \<Rightarrow> None
           | Some (p2, fs2) \<Rightarrow> Some ((p1, p2), fs2)))"

subsection \<open>Auxiliary declarations\<close>

text \<open>
  The arithmetic of numbers is unfolded by hand in the proofs, and \<open>rounded\<close> names the
  finite candidate that \<open>round64\<close> compares with the overflow threshold.
\<close>

declare num_sub.simps [simp del] num_add.simps [simp del] num_mul.simps [simp del]
  num_truediv.simps [simp del]

definition rounded :: "real \<Rightarrow> real" where
  "rounded x = of_int (py_round (x / ulp x)) * ulp x"

section \<open>Properties\<close>

subsection \<open>convert_to_bool on strings\<close>

lemma str_in_single: "str_in [c] s \<longleftrightarrow> c \<in> set s"
proof
  assume "str_in [c] s"
  then obtain i where "take 1 (drop i s) = [c]"
    by (auto simp: str_in_def list_ex_iff)
  then have "c \<in> set (take 1 (drop i s))" by simp
  then show "c \<in> set s" by (meson in_set_dropD in_set_takeD)
next
  assume "c \<in> set s"
  then obtain i where i: "i < length s" "s ! i = c"
    by (auto simp: in_set_conv_nth)
  then have "take 1 (drop i s) = [c]"
    by (simp add: take_Suc_conv_app_nth)
  with i show "str_in [c] s"
    by (auto simp: str_in_def list_ex_iff intro!: bexI[of _ i])
qed

lemma lower_char_f: "lower_char c = CHR ''f'' \<longleftrightarrow> c = CHR ''f'' \<or> c = CHR ''F''"
  unfolding lower_char_def by (auto split: if_splits)

lemma lower_char_0: "lower_char c = CHR ''0'' \<longleftrightarrow> c = CHR ''0''"
  unfolding lower_char_def by (auto split: if_splits)

lemma f_in_lower: "CHR ''f'' \<in> set (lower s) \<longleftrightarrow> CHR ''f'' \<in> set s \<or> CHR ''F'' \<in> set s"
proof -
  have "CHR ''f'' \<in> set (lower s) \<longleftrightarrow> (\<exists>c \<in> set s. lower_char c = CHR ''f'')"
    unfolding lower_def set_map image_iff by metis
  then show ?thesis by (auto simp: lower_char_f)
qed

lemma zero_in_lower: "CHR ''0'' \<in> set (lower s) \<longleftrightarrow> CHR ''0'' \<in> set s"
proof -
  have "CHR ''0'' \<in> set (lower s) \<longleftrightarrow> (\<exists>c \<in> set s. lower_char c = CHR ''0'')"
    unfolding lower_def set_map image_iff by metis
  then show ?thesis by (auto simp: lower_char_0)
qed

text \<open>
  C10: on a string \<open>convert_to_bool\<close> is False when the string is empty or holds an
  \<open>f\<close> (in either case) or a \<open>0\<close>, and True on every other string; so \<open>false\<close>, \<open>0\<close>,
  \<open>off\<close>, \<open>10\<close> and \<open>f-anything\<close> give False and \<open>no\<close> gives True.
\<close>

theorem convert_to_bool_str:
  "convert_to_bool (PyStr s)
     = (s \<noteq> [] \<and> CHR ''f'' \<notin> set s \<and> CHR ''F'' \<notin> set s \<and> CHR ''0'' \<notin> set s)
   \<and> convert_to_bool (PyStr ''false'') = False
   \<and> convert_to_bool (PyStr ''0'') = False
   \<and> convert_to_bool (PyStr ''off'') = False
   \<and> convert_to_bool (PyStr ''10'') = False
   \<and> convert_to_bool (PyStr ''f-anything'') = False
   \<and> convert_to_bool (PyStr ''OFF'') = False
   \<and> convert_to_bool (PyStr ''no'') = True"
  by (simp add: str_in_single f_in_lower zero_in_lower)

subsection \<open>Rounding to binary64\<close>

lemma pow2_powr: "pow2 k = 2 powr (of_int k)"
  by (auto simp: pow2_def powr_realpow[symmetric] powr_minus_divide)

lemma pow2_pos [simp]: "0 < pow2 k"
  by (simp add: pow2_powr)

lemma pow2_add: "pow2 (a + b) = pow2 a * pow2 b"
  by (simp add: pow2_powr powr_add)

lemma pow2_mono: "a \<le> b \<Longrightarrow> pow2 a \<le> pow2 b"
  by (simp add: pow2_powr)

lemma pow2_nat: "0 \<le> k \<Longrightarrow> pow2 k = 2 ^ nat k"
  by (simp add: pow2_def)

lemma py_round_of_int [simp]: "py_round (of_int n) = n"
  by (simp add: py_round_def)

lemma py_round_le: "t \<le> of_int n \<Longrightarrow> py_round t \<le> n"
  unfolding py_round_def Let_def
  by (auto split: if_splits) linarith+

lemma py_round_ge: "of_int n \<le> t \<Longrightarrow> n \<le> py_round t"
  unfolding py_round_def Let_def
  by (auto split: if_splits) linarith+

lemma binade_ge: "- 1022 \<le> binade x"
  by (simp add: binade_def)

lemma binade_eqI:
  assumes "pow2 k \<le> \<bar>x\<bar>" "\<bar>x\<bar> < pow2 (k + 1)" "- 1022 \<le> k"
  shows "binade x = k"
proof -
  have "0 < \<bar>x\<bar>" using assms(1) pow2_pos[of k] by linarith
  then have "\<lfloor>log 2 \<bar>x\<bar>\<rfloor> = k"
    using assms by (simp add: floor_log_eq_powr_iff pow2_powr)
  then show ?thesis using assms(3) by (simp add: binade_def)
qed

lemma binade_subnormal:
  assumes "x \<noteq> 0" "\<bar>x\<bar> < pow2 (- 1022)"
  shows "binade x = - 1022"
proof -
  have "log 2 \<bar>x\<bar> < - 1022"
    using assms by (simp add: log_less_iff pow2_powr)
  then have "\<lfloor>log 2 \<bar>x\<bar>\<rfloor> < - 1022" by linarith
  then show ?thesis by (simp add: binade_def)
qed

lemma binade_upper:
  assumes "x \<noteq> 0"
  shows "\<bar>x\<bar> < pow2 (binade x + 1)"
proof -
  define k where "k = \<lfloor>log 2 \<bar>x\<bar>\<rfloor>"
  have "\<bar>x\<bar> < 2 powr (of_int k + 1)"
    using assms floor_log_eq_powr_iff[of "\<bar>x\<bar>" 2 k] by (simp add: k_def)
  then have "\<bar>x\<bar> < pow2 (k + 1)" by (simp add: pow2_powr)
  also have "\<dots> \<le> pow2 (binade x + 1)"
    by (rule pow2_mono) (simp add: binade_def k_def)
  finally show ?thesis .
qed

lemma binade_lower:
  assumes "pow2 (- 1022) \<le> \<bar>x\<bar>"
  shows "pow2 (binade x) \<le> \<bar>x\<bar>"
proof -
  define k where "k = \<lfloor>log 2 \<bar>x\<bar>\<rfloor>"
  have pos: "0 < \<bar>x\<bar>" using assms pow2_pos[of "- 1022"] by linarith
  have "- 1022 \<le> log 2 \<bar>x\<bar>"
    using assms pos by (simp add: le_log_iff pow2_powr)
  then have "- 1022 \<le> k" unfolding k_def by linarith
  then have b: "binade x = k" by (simp add: binade_def k_def)
  have "2 powr (of_int k) \<le> \<bar>x\<bar>"
    using pos floor_log_eq_powr_iff[of "\<bar>x\<bar>" 2 k] by (simp add: k_def)
  then show ?thesis by (simp add: b pow2_powr)
qed

lemma binade_mono:
  assumes "x \<noteq> 0" "\<bar>x\<bar> \<le> \<bar>y\<bar>"
  shows "binade x \<le> binade y"
proof -
  have "log 2 \<bar>x\<bar> \<le> log 2 \<bar>y\<bar>" using assms by simp
  then have "\<lfloor>log 2 \<bar>x\<bar>\<rfloor> \<le> \<lfloor>log 2 \<bar>y\<bar>\<rfloor>" by (rule floor_mono)
  then show ?thesis by (simp add: binade_def)
qed

lemma ulp_pos [simp]: "0 < ulp x"
  by (simp add: ulp_def)

lemma ulp_nonneg [simp]: "0 \<le> ulp x"
  by (simp add: less_imp_le)

lemma ulp_nonzero [simp]: "ulp x \<noteq> 0"
  by (metis ulp_pos less_irrefl)

lemma round64_unfold:
  "x \<noteq> 0 \<Longrightarrow> round64 x =
     (if rounded x \<ge> 2 ^ 1024 then PosInf
      else if rounded x \<le> - (2 ^ 1024) then NegInf else Finite (rounded x))"
  by (simp add: round64_def rounded_def Let_def)

lemma round64_0 [simp]: "round64 0 = Finite 0"
  by (simp add: round64_def)

lemma is_float64_rounded: "is_float64 a \<Longrightarrow> a \<noteq> 0 \<Longrightarrow> rounded a = a"
  by (auto simp: is_float64_def round64_unfold split: if_splits)

lemma is_float64_bound: "is_float64 a \<Longrightarrow> \<bar>a\<bar> < 2 ^ 1024"
  by (cases "a = 0") (auto simp: is_float64_def round64_unfold split: if_splits)

lemma rounded_nonneg: "0 \<le> z \<Longrightarrow> 0 \<le> rounded z"
proof -
  assume "0 \<le> z"
  then have "of_int 0 \<le> z / ulp z"
    using ulp_pos[of z] by (simp add: zero_le_divide_iff less_imp_le)
  then have "0 \<le> py_round (z / ulp z)" by (rule py_round_ge)
  then show ?thesis by (simp add: rounded_def)
qed

lemma rounded_nonpos: "z \<le> 0 \<Longrightarrow> rounded z \<le> 0"
proof -
  assume "z \<le> 0"
  then have "z / ulp z \<le> of_int 0"
    using ulp_pos[of z] by (simp add: divide_le_0_iff less_imp_le)
  then have "py_round (z / ulp z) \<le> 0" by (rule py_round_le)
  then show ?thesis
    using ulp_pos[of z] by (simp add: rounded_def mult_le_0_iff less_imp_le)
qed

text \<open>Upper anchor: rounding does not cross a float above.\<close>

lemma rounded_le_float:
  assumes a: "is_float64 a" and z: "0 < z" "z \<le> a"
  shows "rounded z \<le> a"
proof -
  have a0: "a \<noteq> 0" using z by auto
  have e: "binade z \<le> binade a" using z by (intro binade_mono) auto
  define n where "n = nat (binade a - binade z)"
  have "binade a - 52 = (binade z - 52) + int n" using e by (simp add: n_def)
  then have "pow2 (binade a - 52) = pow2 (binade z - 52) * pow2 (int n)"
    by (simp only: pow2_add)
  then have u: "ulp a = ulp z * 2 ^ n"
    by (simp add: ulp_def pow2_nat)
  define m where "m = py_round (a / ulp a)"
  have am: "a = of_int m * ulp a"
    using is_float64_rounded[OF a a0] by (simp add: rounded_def m_def)
  have "a / ulp z = of_int (m * 2 ^ n)"
    by (subst am) (simp add: u)
  moreover have "z / ulp z \<le> a / ulp z" using z by (simp add: divide_right_mono)
  ultimately have "py_round (z / ulp z) \<le> m * 2 ^ n"
    by (intro py_round_le) simp
  then have "real_of_int (py_round (z / ulp z)) \<le> real_of_int (m * 2 ^ n)"
    by (simp only: of_int_le_iff)
  then have "of_int (py_round (z / ulp z)) * ulp z \<le> of_int (m * 2 ^ n) * ulp z"
    by (rule mult_right_mono) simp
  also have "\<dots> = of_int m * ulp a" by (simp add: u)
  also have "\<dots> = a" using am by simp
  finally show ?thesis by (simp add: rounded_def)
qed

text \<open>Lower anchor: rounding does not cross a float below.\<close>

lemma rounded_ge_float:
  assumes a: "is_float64 a" and z: "0 < a" "a \<le> z"
  shows "a \<le> rounded z"
proof -
  have a0: "a \<noteq> 0" using z by auto
  have e: "binade a \<le> binade z" using z by (intro binade_mono) auto
  define m where "m = py_round (a / ulp a)"
  have am: "a = of_int m * ulp a"
    using is_float64_rounded[OF a a0] by (simp add: rounded_def m_def)
  show ?thesis
  proof (cases "binade a = binade z")
    case True
    then have u: "ulp a = ulp z" by (simp add: ulp_def)
    have "of_int m \<le> z / ulp z"
      using z(2) am u by (simp add: pos_le_divide_eq)
    then have "m \<le> py_round (z / ulp z)" by (rule py_round_ge)
    then have "real_of_int m \<le> real_of_int (py_round (z / ulp z))"
      by (simp only: of_int_le_iff)
    then have "of_int m * ulp z \<le> of_int (py_round (z / ulp z)) * ulp z"
      by (rule mult_right_mono) simp
    then show ?thesis using am u by (simp add: rounded_def)
  next
    case False
    with e have lt: "binade a + 1 \<le> binade z" by simp
    have "- 1022 < binade z" using lt binade_ge[of a] by linarith
    have zn: "pow2 (- 1022) \<le> \<bar>z\<bar>"
    proof (rule ccontr)
      assume "\<not> pow2 (- 1022) \<le> \<bar>z\<bar>"
      then have "binade z = - 1022" using z by (intro binade_subnormal) auto
      with \<open>- 1022 < binade z\<close> show False by simp
    qed
    have lo: "pow2 (binade z) \<le> z" using binade_lower[OF zn] z by simp
    have "binade z = (binade z - 52) + 52" by simp
    then have "pow2 (binade z) = ulp z * 2 ^ 52"
      by (metis ulp_def pow2_add pow2_nat mult.commute nat_numeral zero_le_numeral)
    with lo have "of_int (2 ^ 52) \<le> z / ulp z" by (simp add: pos_le_divide_eq)
    then have "2 ^ 52 \<le> py_round (z / ulp z)" by (rule py_round_ge)
    then have "real_of_int (2 ^ 52) \<le> real_of_int (py_round (z / ulp z))"
      by (simp only: of_int_le_iff)
    then have "of_int (2 ^ 52) * ulp z \<le> of_int (py_round (z / ulp z)) * ulp z"
      by (rule mult_right_mono) simp
    then have "pow2 (binade z) \<le> rounded z"
      using \<open>pow2 (binade z) = ulp z * 2 ^ 52\<close> by (simp add: rounded_def mult.commute)
    moreover have "a < pow2 (binade a + 1)" using binade_upper[OF a0] z by simp
    moreover have "pow2 (binade a + 1) \<le> pow2 (binade z)" using lt by (rule pow2_mono)
    ultimately show ?thesis by linarith
  qed
qed

text \<open>The value of \<open>round64\<close> at a number whose binade is known, and the values used below.\<close>

lemma round64_eval:
  assumes "pow2 k \<le> \<bar>x\<bar>" "\<bar>x\<bar> < pow2 (k + 1)" "- 1022 \<le> k"
  shows "round64 x =
     (let r = of_int (py_round (x / pow2 (k - 52))) * pow2 (k - 52)
      in if r \<ge> 2 ^ 1024 then PosInf
         else if r \<le> - (2 ^ 1024) then NegInf else Finite r)"
proof -
  have "0 < \<bar>x\<bar>" using assms(1) pow2_pos[of k] by linarith
  then have "x \<noteq> 0" by auto
  then show ?thesis
    by (simp add: round64_def ulp_def binade_eqI[OF assms])
qed

lemmas ev = pow2_def py_round_def Let_def

lemma round64_1: "round64 1 = Finite 1"
  by (simp add: round64_eval[of 0] ev)

lemma round64_2: "round64 2 = Finite 2"
  by (simp add: round64_eval[of 1] ev)

lemma round64_eps: "round64 (1 / 2 ^ 52) = Finite (1 / 2 ^ 52)"
  by (simp add: round64_eval[of "- 52"] ev)

lemma round64_1_eps: "round64 (1 - 1 / 2 ^ 52) = Finite (1 - 1 / 2 ^ 52)"
  by (simp add: round64_eval[of "- 1"] ev)

lemma round64_third: "round64 (1 / 3) = Finite third"
  by (simp add: round64_eval[of "- 2"] ev third_def)

lemma round64_big: "round64 (2 ^ 1023) = Finite (2 ^ 1023)"
  by (simp add: round64_eval[of 1023] ev)

lemma round64_over: "round64 (2 ^ 1024) = PosInf"
  by (simp add: round64_eval[of 1024] ev)

lemma round64_under: "round64 (- (2 ^ 1024)) = NegInf"
  by (simp add: round64_eval[of 1024] ev)

lemma round64_h: "round64 (1 / 2 ^ 53) = Finite (1 / 2 ^ 53)"
  by (simp add: round64_eval[of "- 53"] ev)

lemma round64_1_h: "round64 (1 - 1 / 2 ^ 53) = Finite (1 - 1 / 2 ^ 53)"
  by (simp add: round64_eval[of "- 1"] ev)

lemma round64_cube_h: "round64 ((1 - 1 / 2 ^ 53) ^ 3) = Finite (1 - 3 / 2 ^ 53)"
  by (simp add: round64_eval[of "- 1"] ev power3_eq_cube)

lemma round64_3h: "round64 (3 / 2 ^ 53) = Finite (3 / 2 ^ 53)"
  by (simp add: round64_eval[of "- 52"] ev)

lemma round64_1p: "round64 (1 + 1 / 2 ^ 52) = Finite (1 + 1 / 2 ^ 52)"
  by (simp add: round64_eval[of 0] ev)

lemma round64_m_eps: "round64 (- (1 / 2 ^ 52)) = Finite (- (1 / 2 ^ 52))"
  by (simp add: round64_eval[of "- 52"] ev)

lemma round64_53: "round64 (2 ^ 53) = Finite (2 ^ 53)"
  by (simp add: round64_eval[of 53] ev)

lemma round64_m53: "round64 (- (2 ^ 53)) = Finite (- (2 ^ 53))"
  by (simp add: round64_eval[of 53] ev)

lemma round64_53_1: "round64 (2 ^ 53 + 1) = Finite (2 ^ 53)"
  by (simp add: round64_eval[of 53] ev)

lemmas vals = round64_1 round64_2 round64_eps[simplified] round64_1_eps[simplified]
  round64_big[simplified] round64_over[simplified] round64_under[simplified]
  round64_h[simplified] round64_1_h[simplified] round64_cube_h[simplified]
  round64_3h[simplified] round64_1p[simplified] round64_m_eps[simplified]
  round64_53[simplified] round64_m53[simplified] round64_53_1[simplified]

lemma is_float64_grid:
  assumes "is_float64 a"
  shows "\<exists>k. a = of_int k * pow2 (- 1074)"
proof (cases "a = 0")
  case True
  then show ?thesis by (intro exI[of _ 0]) simp
next
  case False
  define m where "m = py_round (a / ulp a)"
  define n where "n = nat (binade a + 1022)"
  have am: "a = of_int m * ulp a"
    using is_float64_rounded[OF assms False] by (simp add: rounded_def m_def)
  have "binade a - 52 = - 1074 + int n"
    using binade_ge[of a] by (simp add: n_def)
  then have "pow2 (binade a - 52) = pow2 (- 1074) * pow2 (int n)"
    by (simp only: pow2_add)
  then have "ulp a = pow2 (- 1074) * 2 ^ n" by (simp add: ulp_def pow2_nat)
  with am have "a = of_int (m * 2 ^ n) * pow2 (- 1074)" by simp
  then show ?thesis by blast
qed

lemma ulp_le_abs:
  assumes "pow2 (- 1074) \<le> \<bar>z\<bar>"
  shows "ulp z \<le> \<bar>z\<bar>"
proof (cases "pow2 (- 1022) \<le> \<bar>z\<bar>")
  case True
  have "ulp z \<le> pow2 (binade z)" unfolding ulp_def by (rule pow2_mono) simp
  with binade_lower[OF True] show ?thesis by linarith
next
  case False
  have "0 < \<bar>z\<bar>" using assms pow2_pos[of "- 1074"] by linarith
  then have "z \<noteq> 0" by auto
  with False have "binade z = - 1022" by (intro binade_subnormal) auto
  then show ?thesis using assms by (simp add: ulp_def)
qed

lemma round64_nonzero:
  assumes "pow2 (- 1074) \<le> \<bar>z\<bar>"
  shows "round64 z \<noteq> Finite 0"
proof -
  have "0 < \<bar>z\<bar>" using assms pow2_pos[of "- 1074"] by linarith
  then have z: "z \<noteq> 0" by auto
  have u: "ulp z \<le> \<bar>z\<bar>" by (rule ulp_le_abs[OF assms])
  have "py_round (z / ulp z) \<noteq> 0"
  proof (cases "0 < z")
    case True
    with u have "of_int 1 \<le> z / ulp z" by (simp add: pos_le_divide_eq)
    then have "1 \<le> py_round (z / ulp z)" by (rule py_round_ge)
    then show ?thesis by simp
  next
    case False
    with z u have "z / ulp z \<le> of_int (- 1)"
      by (simp add: pos_divide_le_eq)
    then have "py_round (z / ulp z) \<le> - 1" by (rule py_round_le)
    then show ?thesis by simp
  qed
  then have "rounded z \<noteq> 0" by (simp add: rounded_def)
  then show ?thesis using z by (simp add: round64_unfold)
qed

lemma round64_diff_zero:
  assumes "is_float64 a" "is_float64 b"
  shows "round64 (b - a) = Finite 0 \<longleftrightarrow> a = b"
proof
  assume r: "round64 (b - a) = Finite 0"
  show "a = b"
  proof (rule ccontr)
    assume ne: "a \<noteq> b"
    obtain k l where k: "a = of_int k * pow2 (- 1074)" and l: "b = of_int l * pow2 (- 1074)"
      using is_float64_grid assms by blast
    from ne k l have "l - k \<noteq> 0" by auto
    then have "1 \<le> \<bar>real_of_int (l - k)\<bar>" by linarith
    then have "1 * pow2 (- 1074) \<le> \<bar>real_of_int (l - k)\<bar> * pow2 (- 1074)"
      by (rule mult_right_mono) (simp add: less_imp_le)
    also have "\<dots> = \<bar>real_of_int (l - k) * pow2 (- 1074)\<bar>"
      by (simp add: abs_mult less_imp_le)
    also have "real_of_int (l - k) * pow2 (- 1074) = b - a"
      by (simp add: k l left_diff_distrib)
    finally have "pow2 (- 1074) \<le> \<bar>b - a\<bar>" by simp
    from round64_nonzero[OF this] r show False by simp
  qed
next
  assume "a = b"
  then show "round64 (b - a) = Finite 0" by simp
qed

lemma round64_int_zero: "round64 (of_int d) = Finite 0 \<longleftrightarrow> d = 0"
proof
  assume r: "round64 (of_int d) = Finite 0"
  show "d = 0"
  proof (rule ccontr)
    assume "d \<noteq> 0"
    then have "1 \<le> \<bar>real_of_int d\<bar>" by linarith
    moreover have "pow2 (- 1074) \<le> 1" by (simp add: pow2_def)
    ultimately have "pow2 (- 1074) \<le> \<bar>real_of_int d\<bar>" by linarith
    from round64_nonzero[OF this] r show False by simp
  qed
qed simp

lemma round64_not_NaN [simp]: "round64 z \<noteq> NaN"
  by (simp add: round64_def Let_def)

lemma py_round_minus: "py_round (- t) = - py_round t"
proof (cases "t = of_int \<lfloor>t\<rfloor>")
  case True
  then have "py_round t = \<lfloor>t\<rfloor>" by (metis py_round_of_int)
  moreover have "- t = of_int (- \<lfloor>t\<rfloor>)" using True by simp
  then have "py_round (- t) = - \<lfloor>t\<rfloor>" by (metis py_round_of_int)
  ultimately show ?thesis by simp
next
  case False
  define f where "f = \<lfloor>t\<rfloor>"
  have fl: "\<lfloor>- t\<rfloor> = - f - 1"
    using False by (simp add: floor_minus ceiling_altdef f_def)
  have d: "0 < t - of_int f" "t - of_int f < 1"
    using False unfolding f_def by linarith+
  have par: "even (- f - 1) \<longleftrightarrow> odd f" by simp
  show ?thesis
    unfolding py_round_def Let_def fl f_def[symmetric] using d par
    by (auto split: if_splits)
qed

lemma binade_minus [simp]: "binade (- x) = binade x"
  by (simp add: binade_def)

lemma ulp_minus [simp]: "ulp (- x) = ulp x"
  by (simp add: ulp_def)

lemma rounded_minus: "rounded (- z) = - rounded z"
  by (simp add: rounded_def py_round_minus)

lemma round64_Finite_bound: "round64 z = Finite a \<Longrightarrow> \<bar>a\<bar> < 2 ^ 1024"
  by (cases "z = 0") (auto simp: round64_unfold split: if_splits)

text \<open>Anchors at the level of the rounded float.\<close>

lemma round64_le_float:
  assumes "is_float64 b" "0 \<le> b" "z \<le> b"
  shows "fle (round64 z) (Finite b)"
proof (cases "z = 0")
  case True
  then show ?thesis using assms by simp
next
  case False
  have r: "rounded z \<le> b"
  proof (cases "0 < z")
    case True
    then show ?thesis using rounded_le_float[OF assms(1) True assms(3)] by simp
  next
    case False
    then have "rounded z \<le> 0" by (intro rounded_nonpos) simp
    with assms(2) show ?thesis by linarith
  qed
  have "b < 2 ^ 1024" using is_float64_bound[OF assms(1)] by simp
  with r show ?thesis using False by (simp add: round64_unfold)
qed

lemma round64_ge_float:
  assumes "is_float64 b" "b \<le> z" "0 \<le> z"
  shows "fle (Finite b) (round64 z)"
proof (cases "z = 0")
  case True
  then show ?thesis using assms by simp
next
  case False
  have r: "b \<le> rounded z"
  proof (cases "0 < b")
    case True
    then show ?thesis using rounded_ge_float[OF assms(1) True assms(2)] by simp
  next
    case False
    have "0 \<le> rounded z" using assms(3) by (rule rounded_nonneg)
    with False show ?thesis by linarith
  qed
  have "- (2 ^ 1024) < b" using is_float64_bound[OF assms(1)] by simp
  with r show ?thesis using False by (simp add: round64_unfold)
qed

lemma round64_ge_neg_float:
  assumes "is_float64 b" "0 \<le> b" "- b \<le> z"
  shows "fle (Finite (- b)) (round64 z)"
proof (cases "z = 0")
  case True
  then show ?thesis using assms by simp
next
  case False
  have r: "- b \<le> rounded z"
  proof (cases "z < 0")
    case True
    then have "0 < - z" "- z \<le> b" using assms(3) by simp_all
    from rounded_le_float[OF assms(1) this] show ?thesis by (simp add: rounded_minus)
  next
    case False
    then have "0 \<le> rounded z" by (intro rounded_nonneg) simp
    with assms(2) show ?thesis by linarith
  qed
  have "b < 2 ^ 1024" using is_float64_bound[OF assms(1)] by simp
  with r show ?thesis using False by (simp add: round64_unfold)
qed

lemma faithful_pow_nearest: "faithful_pow pow_nearest"
  unfolding faithful_pow_def pow_nearest_def
proof (intro allI impI conjI)
  fix a y b :: real
  assume h: "0 < a \<and> is_float64 b"
  have p: "0 \<le> a powr y" by simp
  show "fle (round64 (a powr y)) (Finite b)" if "a powr y \<le> b"
  proof -
    from that p have "0 \<le> b" by linarith
    with that h show ?thesis by (intro round64_le_float) auto
  qed
  show "fle (Finite b) (round64 (a powr y))" if "b \<le> a powr y"
    using that p h by (intro round64_ge_float) auto
qed

lemma is_float64_0: "is_float64 0" by (simp add: is_float64_def)
lemma is_float64_1: "is_float64 1" by (simp add: is_float64_def round64_1)
lemma is_float64_2: "is_float64 2" by (simp add: is_float64_def round64_2)
lemma is_float64_eps: "is_float64 (1 / 2 ^ 52)" by (simp only: is_float64_def round64_eps)
lemma is_float64_1_eps: "is_float64 (1 - 1 / 2 ^ 52)" by (simp only: is_float64_def round64_1_eps)
lemma is_float64_big: "is_float64 (2 ^ 1023)" by (simp only: is_float64_def round64_big)

lemma band0_iff: "band0 v \<longleftrightarrow> fle v (Finite (1 / 2 ^ 52))"
  by (simp add: band0_def float_epsilon_def vals)

lemma band1_iff: "band1 v \<longleftrightarrow> fle (Finite (1 - 1 / 2 ^ 52)) v"
  by (simp add: band1_def fsub_def float_epsilon_def vals)

lemma band1_not_band0: "band1 v \<Longrightarrow> \<not> band0 v"
  by (cases v) (auto simp: band0_iff band1_iff)

subsection \<open>interpolate\<close>

lemma supported_iff:
  "f \<in> set INTERPOLATION_FUNCS \<longleftrightarrow> f = ''linear'' \<or> f = ''cubic'' \<or> f = ''inverse_cubic''"
  by (auto simp: INTERPOLATION_FUNCS_def)

lemmas interp_ev = interpolate_def x_per_of_def y_per_of_def curve_def scale_def float_op_def
  float_of_int_def fdiv_def fsub_def float_pow_def pow_nearest_def float_epsilon_def
  INTERPOLATION_FUNCS_def band0_def band1_def num_sub.simps num_add.simps num_mul.simps num_truediv.simps

lemma cex_linear:
  "interpolate pow_nearest (PFloat (Finite (2 ^ 1023))) (PFloat (Finite (- (2 ^ 1023))))
      (PFloat (Finite (2 ^ 1023))) (PInt 0) (PInt 1) ''linear'' = Inr (PFloat NaN)"
  by (simp add: interp_ev vals inf_of_sign_def)

lemma cex_cubic:
  "x_per_of (PFloat (Finite (1 / 2 ^ 53))) (PFloat (Finite 0)) (PFloat (Finite 1))
      = Inr (Finite (1 / 2 ^ 53))
   \<and> band0 (Finite (1 / 2 ^ 53))
   \<and> interpolate pow_nearest (PFloat (Finite (1 / 2 ^ 53))) (PFloat (Finite 0))
        (PFloat (Finite 1)) (PInt 0) (PInt 1) ''cubic'' = Inr (PFloat (Finite (3 / 2 ^ 53)))"
  by (simp add: interp_ev vals)

lemma cex_inverse:
  "x_per_of (PFloat (Finite (1 + 1 / 2 ^ 52))) (PFloat (Finite 0)) (PFloat (Finite 1))
      = Inr (Finite (1 + 1 / 2 ^ 52))
   \<and> band1 (Finite (1 + 1 / 2 ^ 52))
   \<and> interpolate pow_nearest (PFloat (Finite (1 + 1 / 2 ^ 52))) (PFloat (Finite 0))
        (PFloat (Finite 1)) (PInt 0) (PInt 1) ''inverse_cubic'' = Inl TypeError"
  by (simp add: interp_ev vals third_def)

lemma cex_div:
  "\<not> py_eq (PInt (2 ^ 53 + 1)) (PFloat (Finite (2 ^ 53)))
   \<and> interpolate pow_nearest (PFloat (Finite 0)) (PFloat (Finite (2 ^ 53))) (PInt (2 ^ 53 + 1))
        (PInt 0) (PInt 1) ''linear'' = Inl ZeroDivisionError"
  by (simp add: interp_ev vals)

lemma float_of_int_err: "float_of_int i = Inl e \<Longrightarrow> e = OverflowError"
  by (auto simp: float_of_int_def split: float64.splits)

lemma to_float_err: "to_float x = Inl e \<Longrightarrow> e = OverflowError"
  by (cases x) (auto dest: float_of_int_err)

lemma float_op_err:
  "float_op f x y = Inl e \<Longrightarrow> e = OverflowError \<or> (\<exists>a b. f a b = Inl e)"
  by (auto simp: float_op_def split: sum.splits dest: to_float_err)

lemma num_sub_err: "num_sub x y = Inl e \<Longrightarrow> e = OverflowError"
  by (cases x; cases y) (auto simp: num_sub.simps dest: float_op_err)

lemma num_add_err: "num_add x y = Inl e \<Longrightarrow> e = OverflowError"
  by (cases x; cases y) (auto simp: num_add.simps dest: float_op_err)

lemma num_mul_err: "num_mul x y = Inl e \<Longrightarrow> e = OverflowError"
  by (cases x; cases y) (auto simp: num_mul.simps dest: float_op_err)

lemma num_truediv_err:
  "num_truediv x y = Inl e \<Longrightarrow> e = OverflowError \<or> e = ZeroDivisionError"
  by (cases x; cases y)
     (auto simp: num_truediv.simps fdiv_def dest!: float_op_err
        split: if_splits float64.splits)

lemma x_per_of_err:
  "x_per_of x_cur x0 x1 = Inl e \<Longrightarrow> e = OverflowError \<or> e = ZeroDivisionError"
  by (auto simp: x_per_of_def split: sum.splits dest: num_sub_err num_truediv_err)

lemma float_pow_err: "float_pow pw x y = Inl e \<Longrightarrow> e = OverflowError"
  by (auto simp: float_pow_def Let_def split: float64.splits if_splits)

lemma curve_err: "curve pw x y = Inl e \<Longrightarrow> e = OverflowError \<or> e = TypeError"
  by (auto simp: curve_def split: sum.splits power.splits dest: float_pow_err)

lemma y_per_of_err:
  "f \<in> set INTERPOLATION_FUNCS \<Longrightarrow> y_per_of pw f x = Inl e
     \<Longrightarrow> e = OverflowError \<or> e = TypeError"
  by (auto simp: y_per_of_def supported_iff dest: curve_err split: if_splits)

lemma scale_err: "scale y_per y0 y1 = Inl e \<Longrightarrow> e = OverflowError"
  by (auto simp: scale_def split: sum.splits dest: num_sub_err num_mul_err num_add_err)

lemma str_of_funcs: "str_of_list INTERPOLATION_FUNCS = ''['linear', 'cubic', 'inverse_cubic']''"
  by (simp add: str_of_list_def INTERPOLATION_FUNCS_def)

lemma interpolate_err:
  assumes "f \<in> set INTERPOLATION_FUNCS" "interpolate pw x_cur x0 x1 y0 y1 f = Inl e"
  shows "e = OverflowError \<or> e = TypeError
         \<or> (e = ZeroDivisionError \<and> x_per_of x_cur x0 x1 = Inl ZeroDivisionError)"
  using assms
  by (auto simp: interpolate_def split: sum.splits if_splits
      dest: x_per_of_err y_per_of_err scale_err)

text \<open>
  C6: \<open>interpolate\<close> raises the unsupported-curve \<open>ValueError\<close> exactly when \<open>inter_func\<close>
  is none of \<open>linear\<close>, \<open>cubic\<close> and \<open>inverse_cubic\<close>; the message names the given value and
  the list of the allowed names; for a supported name that error is not raised.
\<close>

theorem interpolate_unsupported:
  "((\<exists>msg. interpolate pw x_cur x0 x1 y0 y1 f = Inl (ValueError msg))
      \<longleftrightarrow> f \<notin> set INTERPOLATION_FUNCS)
   \<and> (f \<notin> set INTERPOLATION_FUNCS \<longrightarrow>
        interpolate pw x_cur x0 x1 y0 y1 f
          = Inl (ValueError (''unsupported inter_func given of '' @ f
               @ '' must be one of ['linear', 'cubic', 'inverse_cubic']'')))
   \<and> (f \<notin> set INTERPOLATION_FUNCS
        \<longleftrightarrow> f \<noteq> ''linear'' \<and> f \<noteq> ''cubic'' \<and> f \<noteq> ''inverse_cubic'')"
proof -
  have a: "interpolate pw x_cur x0 x1 y0 y1 f
          = Inl (ValueError (''unsupported inter_func given of '' @ f
               @ '' must be one of ['linear', 'cubic', 'inverse_cubic']''))"
    if "f \<notin> set INTERPOLATION_FUNCS"
    using that by (simp add: interpolate_def str_of_funcs)
  have b: "interpolate pw x_cur x0 x1 y0 y1 f \<noteq> Inl (ValueError msg)"
    if "f \<in> set INTERPOLATION_FUNCS" for msg
    using interpolate_err[OF that, of pw x_cur x0 x1 y0 y1 "ValueError msg"] by auto
  from a b show ?thesis by (auto simp: supported_iff)
qed

theorem interpolate_unsupported_witness:
  "''quadratic'' \<notin> set INTERPOLATION_FUNCS
   \<and> interpolate pow_nearest (PInt 0) (PInt 0) (PInt 1) (PInt 0) (PInt 1) ''quadratic''
       = Inl (ValueError
           ''unsupported inter_func given of quadratic must be one of ['linear', 'cubic', 'inverse_cubic']'')
   \<and> ''cubic'' \<in> set INTERPOLATION_FUNCS
   \<and> \<not> (\<exists>msg. interpolate pow_nearest (PInt 0) (PInt 0) (PInt 1) (PInt 0) (PInt 1) ''cubic''
             = Inl (ValueError msg))"
  using interpolate_unsupported [of pow_nearest "PInt 0" "PInt 0" "PInt 1" "PInt 0" "PInt 1" "''quadratic''"]
    interpolate_unsupported [of pow_nearest "PInt 0" "PInt 0" "PInt 1" "PInt 0" "PInt 1" "''cubic''"]
  by (simp add: INTERPOLATION_FUNCS_def)

lemma interpolate_zero_division:
  assumes "f \<in> set INTERPOLATION_FUNCS"
  shows "interpolate pw x_cur x0 x1 y0 y1 f = Inl ZeroDivisionError
         \<longleftrightarrow> x_per_of x_cur x0 x1 = Inl ZeroDivisionError"
proof
  assume "interpolate pw x_cur x0 x1 y0 y1 f = Inl ZeroDivisionError"
  from interpolate_err[OF assms this] show "x_per_of x_cur x0 x1 = Inl ZeroDivisionError"
    by auto
next
  assume "x_per_of x_cur x0 x1 = Inl ZeroDivisionError"
  then show "interpolate pw x_cur x0 x1 y0 y1 f = Inl ZeroDivisionError"
    using assms by (simp add: interpolate_def)
qed

lemma truediv_by_int:
  "num_truediv a (PInt d) = Inl ZeroDivisionError \<longleftrightarrow> d = 0"
proof (cases a)
  case (PInt c)
  then show ?thesis by (auto simp: num_truediv.simps split: float64.splits)
next
  case (PFloat u)
  show ?thesis
  proof (cases "round64 (of_int d)")
    case (Finite r)
    with round64_int_zero[of d] have "r = 0 \<longleftrightarrow> d = 0" by auto
    with Finite PFloat show ?thesis
      by (auto simp: num_truediv.simps float_op_def float_of_int_def fdiv_def)
  qed (use PFloat round64_int_zero[of d] in
        \<open>auto simp: num_truediv.simps float_op_def float_of_int_def\<close>)
qed

lemma truediv_float_divisor:
  "num_truediv c (PFloat d) = Inl ZeroDivisionError \<Longrightarrow> d = Finite 0"
  "to_float c = Inr u \<Longrightarrow> num_truediv c (PFloat (Finite 0)) = Inl ZeroDivisionError"
  "num_truediv c (PFloat (Finite 0)) = Inl ZeroDivisionError
   \<or> num_truediv c (PFloat (Finite 0)) = Inl OverflowError"
  by (cases c; auto simp: num_truediv.simps float_op_def fdiv_def float_of_int_def
        split: sum.splits float64.splits if_splits)+

lemma exact_float_pair:
  assumes "exact_float x0" "exact_float x1"
  obtains a b where "to_float x0 = Inr (Finite a)" "to_float x1 = Inr (Finite b)"
    "is_float64 a" "is_float64 b" "py_eq x1 x0 \<longleftrightarrow> b = a"
proof -
  have e: "\<exists>a. to_float x = Inr (Finite a) \<and> is_float64 a
            \<and> (\<forall>i. x = PInt i \<longrightarrow> a = of_int i) \<and> (\<forall>r. x = PFloat r \<longrightarrow> r = Finite a)"
    if "exact_float x" for x
    using that
    by (cases x rule: exact_float.cases) (auto simp: float_of_int_def is_float64_def)
  from e[OF assms(1)] e[OF assms(2)] obtain a b where
    ab: "to_float x0 = Inr (Finite a)" "to_float x1 = Inr (Finite b)"
      "is_float64 a" "is_float64 b"
    and v0: "\<And>i. x0 = PInt i \<Longrightarrow> a = of_int i" "\<And>r. x0 = PFloat r \<Longrightarrow> r = Finite a"
    and v1: "\<And>i. x1 = PInt i \<Longrightarrow> b = of_int i" "\<And>r. x1 = PFloat r \<Longrightarrow> r = Finite b"
    by blast
  have "py_eq x1 x0 \<longleftrightarrow> b = a"
    using v0 v1 by (cases x0; cases x1) auto
  with ab show ?thesis by (rule that)
qed

lemma num_sub_float:
  assumes "\<not> (is_int x \<and> is_int y)" "to_float x = Inr a" "to_float y = Inr b"
  shows "num_sub x y = Inr (PFloat (fsub a b))"
  using assms by (cases x; cases y) (auto simp: num_sub.simps float_op_def)

lemma num_sub_is_float:
  assumes "\<not> (is_int x \<and> is_int y)" "num_sub x y = Inr c"
  shows "\<exists>u. c = PFloat u"
  using assms by (cases x; cases y) (auto simp: num_sub.simps float_op_def split: sum.splits)

lemma x_per_of_zero_division:
  assumes "exact_operands x0 x1"
  shows "x_per_of x_cur x0 x1 = Inl ZeroDivisionError \<longrightarrow> py_eq x1 x0"
    and "py_eq x1 x0 \<longrightarrow> x_per_of x_cur x0 x1 = Inl ZeroDivisionError
                        \<or> x_per_of x_cur x0 x1 = Inl OverflowError"
    and "py_eq x1 x0 \<and> num_sub x_cur x0 = Inr c
           \<and> ((is_int x0 \<and> is_int x1) \<or> to_float c = Inr u)
         \<longrightarrow> x_per_of x_cur x0 x1 = Inl ZeroDivisionError"
proof -
  have "(x_per_of x_cur x0 x1 = Inl ZeroDivisionError \<longrightarrow> py_eq x1 x0)
      \<and> (py_eq x1 x0 \<longrightarrow> x_per_of x_cur x0 x1 = Inl ZeroDivisionError
                        \<or> x_per_of x_cur x0 x1 = Inl OverflowError)
      \<and> (py_eq x1 x0 \<and> num_sub x_cur x0 = Inr c
           \<and> ((is_int x0 \<and> is_int x1) \<or> to_float c = Inr u)
         \<longrightarrow> x_per_of x_cur x0 x1 = Inl ZeroDivisionError)"
  proof (cases "is_int x0 \<and> is_int x1")
    case True
    then obtain i0 i1 where x: "x0 = PInt i0" "x1 = PInt i1"
      by (cases x0; cases x1) auto
    have s: "num_sub x1 x0 = Inr (PInt (i1 - i0))" by (simp add: x num_sub.simps)
    have e: "py_eq x1 x0 \<longleftrightarrow> i1 = i0" by (auto simp: x)
    show ?thesis
    proof (cases "num_sub x_cur x0")
      case (Inl err)
      with num_sub_err[OF Inl] show ?thesis by (simp add: x_per_of_def)
    next
      case (Inr c0)
      then show ?thesis by (simp add: x_per_of_def s truediv_by_int e)
    qed
  next
    case False
    with assms have "exact_float x0" "exact_float x1" by (auto simp: exact_operands_def)
    then obtain a b where t: "to_float x0 = Inr (Finite a)" "to_float x1 = Inr (Finite b)"
      and f: "is_float64 a" "is_float64 b" and e: "py_eq x1 x0 \<longleftrightarrow> b = a"
      by (rule exact_float_pair)
    have "\<not> (is_int x1 \<and> is_int x0)" using False by auto
    from num_sub_float[OF this t(2) t(1)]
    have s: "num_sub x1 x0 = Inr (PFloat (round64 (b - a)))" by (simp add: fsub_def)
    have z: "round64 (b - a) = Finite 0 \<longleftrightarrow> b = a"
      using round64_diff_zero[OF f] by auto
    show ?thesis
    proof (cases "num_sub x_cur x0")
      case (Inl err)
      with num_sub_err[OF Inl] show ?thesis by (simp add: x_per_of_def)
    next
      case (Inr c0)
      have x: "x_per_of x_cur x0 x1 = num_truediv c0 (PFloat (round64 (b - a)))"
        by (simp add: x_per_of_def Inr s)
      show ?thesis
      proof (cases "b = a")
        case True
        then show ?thesis
          using truediv_float_divisor(2)[of c0 u] truediv_float_divisor(3)[of c0] False Inr
          by (auto simp: x e)
      next
        case False
        then show ?thesis
          using truediv_float_divisor(1)[of c0 "round64 (b - a)"] z by (auto simp: x e)
      qed
    qed
  qed
  then show "x_per_of x_cur x0 x1 = Inl ZeroDivisionError \<longrightarrow> py_eq x1 x0"
    and "py_eq x1 x0 \<longrightarrow> x_per_of x_cur x0 x1 = Inl ZeroDivisionError
                        \<or> x_per_of x_cur x0 x1 = Inl OverflowError"
    and "py_eq x1 x0 \<and> num_sub x_cur x0 = Inr c
           \<and> ((is_int x0 \<and> is_int x1) \<or> to_float c = Inr u)
         \<longrightarrow> x_per_of x_cur x0 x1 = Inl ZeroDivisionError"
    by blast+
qed

lemma interpolate_x_per_error:
  assumes "f \<in> set INTERPOLATION_FUNCS" "x_per_of x_cur x0 x1 = Inl e"
  shows "interpolate pw x_cur x0 x1 y0 y1 f = Inl e"
  using assms by (simp add: interpolate_def)

lemma exact_operands_f0_f1: "exact_operands (PFloat (Finite 0)) (PFloat (Finite 1))"
  by (simp add: exact_operands_def is_float64_0 is_float64_1)

lemma exact_operands_0_1: "exact_operands (PInt 0) (PFloat (Finite 1))"
  by (simp add: exact_operands_def is_float64_0 is_float64_1)

lemma exact_operands_1_1: "exact_operands (PInt 1) (PFloat (Finite 1))"
  by (simp add: exact_operands_def is_float64_1)

text \<open>
  C8 as stated fails where an int meets a float: \<open>x0 = 2.0 ** 53\<close> and \<open>x1 = 2 ** 53 + 1\<close>
  are different numbers (\<open>x1 != x0\<close> is true, the comparison is exact), while \<open>x1 - x0\<close>
  rounds \<open>x1\<close> to the float \<open>2.0 ** 53\<close> and gives 0.0, so the division raises
  \<open>ZeroDivisionError\<close>.
\<close>

theorem interpolate_division_counterexample:
  "\<not> py_eq (PInt (2 ^ 53 + 1)) (PFloat (Finite (2 ^ 53)))
   \<and> interpolate pow_nearest (PFloat (Finite 0)) (PFloat (Finite (2 ^ 53))) (PInt (2 ^ 53 + 1))
        (PInt 0) (PInt 1) ''linear'' = Inl ZeroDivisionError"
  by (rule cex_div)

text \<open>
  C8, amended: for a supported curve name and \<open>x0\<close>, \<open>x1\<close> that are both ints, or each a
  finite float or an int that a float holds without rounding, \<open>interpolate\<close> never divides
  by zero when \<open>x1 != x0\<close>, whatever \<open>x_cur\<close>, \<open>y0\<close> and \<open>y1\<close>. When \<open>x1 == x0\<close> the call
  raises \<open>ZeroDivisionError\<close>, or \<open>OverflowError\<close> where the dividend overflows first; it is
  \<open>ZeroDivisionError\<close> whenever \<open>x_cur - x0\<close> is computed and, unless \<open>x0\<close> and \<open>x1\<close> are both
  ints, converts to a float.
\<close>

theorem interpolate_division:
  assumes "f \<in> set INTERPOLATION_FUNCS" "exact_operands x0 x1"
  shows "(\<not> py_eq x1 x0 \<longrightarrow> interpolate pw x_cur x0 x1 y0 y1 f \<noteq> Inl ZeroDivisionError)
       \<and> (py_eq x1 x0 \<longrightarrow> interpolate pw x_cur x0 x1 y0 y1 f = Inl ZeroDivisionError
                           \<or> interpolate pw x_cur x0 x1 y0 y1 f = Inl OverflowError)
       \<and> (py_eq x1 x0
            \<and> (\<exists>c. num_sub x_cur x0 = Inr c
                  \<and> ((is_int x0 \<and> is_int x1) \<or> (\<exists>u. to_float c = Inr u)))
           \<longrightarrow> interpolate pw x_cur x0 x1 y0 y1 f = Inl ZeroDivisionError)"
proof (intro conjI impI)
  assume "\<not> py_eq x1 x0"
  with x_per_of_zero_division(1)[OF assms(2), of x_cur]
  show "interpolate pw x_cur x0 x1 y0 y1 f \<noteq> Inl ZeroDivisionError"
    by (simp only: interpolate_zero_division[OF assms(1)]) blast
next
  assume "py_eq x1 x0"
  with x_per_of_zero_division(2)[OF assms(2), of x_cur]
  show "interpolate pw x_cur x0 x1 y0 y1 f = Inl ZeroDivisionError
        \<or> interpolate pw x_cur x0 x1 y0 y1 f = Inl OverflowError"
    using interpolate_x_per_error[OF assms(1), of x_cur x0 x1 _ pw y0 y1] by blast
next
  assume h: "py_eq x1 x0
            \<and> (\<exists>c. num_sub x_cur x0 = Inr c
                  \<and> ((is_int x0 \<and> is_int x1) \<or> (\<exists>u. to_float c = Inr u)))"
  then obtain c where c: "num_sub x_cur x0 = Inr c"
    and k: "(is_int x0 \<and> is_int x1) \<or> (\<exists>u. to_float c = Inr u)" by blast
  have "x_per_of x_cur x0 x1 = Inl ZeroDivisionError"
  proof (cases "is_int x0 \<and> is_int x1")
    case True
    with x_per_of_zero_division(3)[OF assms(2), of x_cur c] h c show ?thesis by blast
  next
    case False
    with k obtain u where "to_float c = Inr u" by blast
    with x_per_of_zero_division(3)[OF assms(2), of x_cur c u] h c show ?thesis by blast
  qed
  then show "interpolate pw x_cur x0 x1 y0 y1 f = Inl ZeroDivisionError"
    by (simp only: interpolate_zero_division[OF assms(1)])
qed

theorem interpolate_division_witness:
  "''cubic'' \<in> set INTERPOLATION_FUNCS
   \<and> exact_operands (PInt 0) (PFloat (Finite 1))
   \<and> \<not> py_eq (PFloat (Finite 1)) (PInt 0)
   \<and> interpolate pow_nearest (PInt 3) (PInt 0) (PFloat (Finite 1)) (PInt 0) (PInt 1)
        ''cubic'' \<noteq> Inl ZeroDivisionError
   \<and> exact_operands (PInt 1) (PFloat (Finite 1))
   \<and> py_eq (PFloat (Finite 1)) (PInt 1)
   \<and> num_sub (PInt 3) (PInt 1) = Inr (PInt 2)
   \<and> to_float (PInt 2) = Inr (Finite 2)
   \<and> interpolate pow_nearest (PInt 3) (PInt 1) (PFloat (Finite 1)) (PInt 0) (PInt 1)
        ''cubic'' = Inl ZeroDivisionError"
proof -
  have f: "''cubic'' \<in> set INTERPOLATION_FUNCS" by (simp add: INTERPOLATION_FUNCS_def)
  have s: "num_sub (PInt 3) (PInt 1) = Inr (PInt 2)" by (simp add: num_sub.simps)
  have t: "to_float (PInt 2) = Inr (Finite 2)" by (simp add: float_of_int_def round64_2)
  have e: "\<exists>c. num_sub (PInt 3) (PInt 1) = Inr c
             \<and> (is_int (PInt 1) \<and> is_int (PFloat (Finite 1)) \<or> (\<exists>u. to_float c = Inr u))"
    using s t by blast
  from interpolate_division [OF f exact_operands_0_1, of pow_nearest "PInt 3" "PInt 0" "PInt 1"]
    interpolate_division [OF f exact_operands_1_1, of pow_nearest "PInt 3" "PInt 0" "PInt 1"]
    f s t e exact_operands_0_1 exact_operands_1_1
  show ?thesis by simp
qed

lemma float_pow_3:
  "float_pow pw x 3 =
     (case x of
        NaN \<Rightarrow> Inr (PowFloat NaN)
      | PosInf \<Rightarrow> Inr (PowFloat PosInf)
      | NegInf \<Rightarrow> Inr (PowFloat NegInf)
      | Finite a \<Rightarrow>
          if a = 0 then Inr (PowFloat (Finite 0))
          else
            let r = (if \<bar>a\<bar> = 1 then Finite 1 else pw \<bar>a\<bar> 3)
            in if r = PosInf \<or> r = NegInf then Inl OverflowError
               else Inr (PowFloat (if a < 0 then fneg r else r)))"
  by (simp add: float_pow_def Let_def split: float64.splits)

lemma floor_third: "\<lfloor>third\<rfloor> = 0"
  by (simp add: third_def)

lemma third_bounds: "0 < third" "third \<le> 1" "1024 * third \<le> 1023"
  by (simp_all add: third_def)

lemma float_pow_third:
  "float_pow pw x third =
     (case x of
        NaN \<Rightarrow> Inr (PowFloat NaN)
      | PosInf \<Rightarrow> Inr (PowFloat PosInf)
      | NegInf \<Rightarrow> Inr (PowFloat PosInf)
      | Finite a \<Rightarrow>
          if a = 0 then Inr (PowFloat (Finite 0))
          else if a < 0 then Inr PowComplex
          else
            let r = (if \<bar>a\<bar> = 1 then Finite 1 else pw \<bar>a\<bar> third)
            in if r = PosInf \<or> r = NegInf then Inl OverflowError
               else Inr (PowFloat r))"
  using third_bounds(1)
  by (simp add: float_pow_def Let_def floor_third split: float64.splits)

lemma fsub_Finite [simp]: "fsub (Finite a) (Finite b) = round64 (a - b)"
  by (simp add: fsub_def)

lemma fsub_special [simp]:
  "fsub (Finite a) NegInf = PosInf" "fsub (Finite a) PosInf = NegInf"
  "fsub (Finite a) NaN = NaN"
  by (simp_all add: fsub_def)

lemma curve_cubic_band1:
  assumes pw: "faithful_pow pw" and b: "band1 x_per"
  shows "curve pw x_per 3 = Inl OverflowError
         \<or> (\<exists>y_per. curve pw x_per 3 = Inr y_per \<and> band1 y_per)"
    and "fle x_per (Finite 2) \<Longrightarrow> \<exists>y_per. curve pw x_per 3 = Inr y_per \<and> band1 y_per"
proof -
  have main: "(curve pw x_per 3 = Inl OverflowError \<and> \<not> fle x_per (Finite 2))
         \<or> (\<exists>y_per. curve pw x_per 3 = Inr y_per \<and> band1 y_per)"
  proof (cases x_per)
    case NaN
    with b show ?thesis by (simp add: band1_iff)
  next
    case NegInf
    with b show ?thesis by (simp add: band1_iff)
  next
    case PosInf
    then show ?thesis
      by (simp add: curve_def float_pow_3 band1_iff)
  next
    case (Finite x)
    with b have x: "1 - 1 / 2 ^ 52 \<le> x" by (simp add: band1_iff)
    define z where "z = 1 - x"
    have z: "z \<le> 1 / 2 ^ 52" using x by (simp add: z_def)
    have t: "fsub (Finite 1) x_per = round64 z" by (simp add: Finite z_def)
    have tle: "fle (round64 z) (Finite (1 / 2 ^ 52))"
      using z by (intro round64_le_float is_float64_eps) simp_all
    show ?thesis
    proof (cases "round64 z")
      case NaN
      with tle show ?thesis by simp
    next
      case PosInf
      with tle show ?thesis by simp
    next
      case NegInf
      then show ?thesis
        by (simp add: curve_def t float_pow_3 band1_iff)
    next
      case (Finite a)
      with tle have a: "a \<le> 1 / 2 ^ 52" by simp
      consider "a = 0" | "a < 0" | "0 < a" by linarith
      then show ?thesis
      proof cases
        case 1
        then show ?thesis
          by (simp add: curve_def t Finite float_pow_3 band1_iff round64_1)
      next
        case 2
        define r where "r = (if \<bar>a\<bar> = 1 then Finite 1 else pw \<bar>a\<bar> 3)"
        have r0: "fle (Finite 0) r"
        proof (cases "\<bar>a\<bar> = 1")
          case True
          then show ?thesis by (simp add: r_def)
        next
          case False
          have "0 < \<bar>a\<bar> \<and> is_float64 0" using 2 by (simp add: is_float64_0)
          moreover have "0 \<le> \<bar>a\<bar> powr 3" by simp
          ultimately have "fle (Finite 0) (pw \<bar>a\<bar> 3)"
            using pw unfolding faithful_pow_def by blast
          with False show ?thesis by (simp add: r_def)
        qed
        have c: "curve pw x_per 3 =
                   (if r = PosInf \<or> r = NegInf then Inl OverflowError
                    else Inr (fsub (Finite 1) (fneg r)))"
          using 2 by (simp add: curve_def t Finite float_pow_3 r_def Let_def)
        show ?thesis
        proof (cases r)
          case NaN
          with r0 show ?thesis by simp
        next
          case NegInf
          with r0 show ?thesis by simp
        next
          case PosInf
          have "\<not> fle x_per (Finite 2)"
          proof
            assume "fle x_per (Finite 2)"
            then have "- 1 \<le> z" using \<open>x_per = Finite x\<close> by (simp add: z_def)
            then have "fle (Finite (- 1)) (round64 z)"
              by (intro round64_ge_neg_float is_float64_1) simp_all
            with Finite have a1: "\<bar>a\<bar> \<le> 1" using 2 by simp
            have "fle r (Finite 1)"
            proof (cases "\<bar>a\<bar> = 1")
              case True
              then show ?thesis by (simp add: r_def)
            next
              case False
              have "0 < \<bar>a\<bar> \<and> is_float64 1" using 2 by (simp add: is_float64_1)
              moreover have "\<bar>a\<bar> powr 3 \<le> 1" using a1 by (intro powr_le1) simp_all
              ultimately have "fle (pw \<bar>a\<bar> 3) (Finite 1)"
                using pw unfolding faithful_pow_def by blast
              with False show ?thesis by (simp add: r_def)
            qed
            with PosInf show False by simp
          qed
          with c PosInf show ?thesis by simp
        next
          case (Finite c0)
          with r0 have c0: "0 \<le> c0" by simp
          have "fle (Finite (1 - 1 / 2 ^ 52)) (round64 (1 + c0))"
            using c0 by (intro round64_ge_float is_float64_1_eps) simp_all
          then show ?thesis using c Finite by (simp add: band1_iff)
        qed
      next
        case 3
        have a1: "\<bar>a\<bar> \<noteq> 1" "\<bar>a\<bar> = a" using 3 a by auto
        have p3: "a powr 3 \<le> 1 / 2 ^ 52"
        proof -
          have "a powr 3 \<le> a" using 3 a by (intro powr_le_one_le) simp_all
          with a show ?thesis by linarith
        qed
        have "0 < a \<and> is_float64 0" "0 < a \<and> is_float64 (1 / 2 ^ 52)"
          using 3 is_float64_0 is_float64_eps by blast+
        then have r: "fle (Finite 0) (pw a 3)" "fle (pw a 3) (Finite (1 / 2 ^ 52))"
          using pw p3 unfolding faithful_pow_def by (metis powr_ge_zero)+
        then obtain c0 where c0: "pw a 3 = Finite c0" "0 \<le> c0" "c0 \<le> 1 / 2 ^ 52"
          by (cases "pw a 3") auto
        have "fle (Finite (1 - 1 / 2 ^ 52)) (round64 (1 - c0))"
          using c0 by (intro round64_ge_float is_float64_1_eps) simp_all
        then show ?thesis
          using 3 a1 c0 by (simp add: curve_def t Finite float_pow_3 band1_iff Let_def)
      qed
    qed
  qed
  from main show "curve pw x_per 3 = Inl OverflowError
         \<or> (\<exists>y_per. curve pw x_per 3 = Inr y_per \<and> band1 y_per)" by blast
  from main show "fle x_per (Finite 2) \<Longrightarrow> \<exists>y_per. curve pw x_per 3 = Inr y_per \<and> band1 y_per"
    by blast
qed

lemma py_round_below:
  assumes "of_int n - 1 / 2 \<le> t" "t < of_int n" "even n"
  shows "py_round t = n"
proof -
  have f: "\<lfloor>t\<rfloor> = n - 1"
    using assms(1,2) by (intro floor_unique) simp_all
  have o: "odd (n - 1)" using assms(3) by simp
  have d: "\<not> t - of_int (n - 1) < 1 / 2" using assms(1) by simp
  show ?thesis
    unfolding py_round_def Let_def f using o d by simp
qed

lemma round64_one_minus:
  assumes "0 < a" "a \<le> 1 / 2 ^ 54"
  shows "round64 (1 - a) = Finite 1"
proof -
  have a: "a * 2 ^ 53 \<le> 1 / 2" "0 < a * 2 ^ 53" using assms by simp_all
  have b: "pow2 (- 1) \<le> \<bar>1 - a\<bar>" "\<bar>1 - a\<bar> < pow2 (- 1 + 1)"
    using assms by (simp_all add: pow2_def)
  have "(1 - a) / pow2 (- 1 - 52) = 2 ^ 53 - a * 2 ^ 53"
    by (simp add: pow2_def left_diff_distrib)
  moreover have "py_round (2 ^ 53 - a * 2 ^ 53) = 2 ^ 53"
    using a by (intro py_round_below) simp_all
  ultimately have "py_round ((1 - a) / pow2 (- 1 - 52)) = 2 ^ 53" by simp
  then show ?thesis
    by (simp add: round64_eval[OF b] pow2_def)
qed

lemma curve_cubic_band0:
  assumes pw: "faithful_pow pw" and b: "fle x_per (Finite (1 / 2 ^ 54))"
  shows "curve pw x_per 3 = Inl OverflowError
         \<or> (\<exists>y_per. curve pw x_per 3 = Inr y_per \<and> band0 y_per)"
    and "fle (Finite (- 1)) x_per \<Longrightarrow> \<exists>y_per. curve pw x_per 3 = Inr y_per \<and> band0 y_per"
proof -
  have main: "(curve pw x_per 3 = Inl OverflowError \<and> \<not> fle (Finite (- 1)) x_per)
         \<or> (\<exists>y_per. curve pw x_per 3 = Inr y_per \<and> band0 y_per)"
  proof (cases x_per)
    case NaN
    with b show ?thesis by simp
  next
    case PosInf
    with b show ?thesis by simp
  next
    case NegInf
    then show ?thesis
      by (simp add: curve_def float_pow_3 band0_iff)
  next
    case (Finite x)
    with b have x: "x \<le> 1 / 2 ^ 54" by simp
    define z where "z = 1 - x"
    have t: "fsub (Finite 1) x_per = round64 z" by (simp add: Finite z_def)
    have tge: "fle (Finite 1) (round64 z)"
    proof (cases "x \<le> 0")
      case True
      then show ?thesis unfolding z_def by (intro round64_ge_float is_float64_1) simp_all
    next
      case False
      then have "round64 (1 - x) = Finite 1" using x by (intro round64_one_minus) simp_all
      then show ?thesis by (simp add: z_def)
    qed
    show ?thesis
    proof (cases "round64 z")
      case NaN
      with tge show ?thesis by simp
    next
      case NegInf
      with tge show ?thesis by simp
    next
      case PosInf
      then show ?thesis
        by (simp add: curve_def t float_pow_3 band0_iff)
    next
      case (Finite a)
      with tge have a: "1 \<le> a" by simp
      show ?thesis
      proof (cases "a = 1")
        case True
        then show ?thesis
          by (simp add: curve_def t Finite float_pow_3 band0_iff)
      next
        case False
        with a have a1: "1 < a" "\<bar>a\<bar> = a" "\<bar>a\<bar> \<noteq> 1" "a \<noteq> 0" "\<not> a < 0" by simp_all
        have "1 \<le> a powr 3" using a by (intro ge_one_powr_ge_zero) simp_all
        moreover have "0 < a \<and> is_float64 1" using a1 by (simp add: is_float64_1)
        ultimately have r1: "fle (Finite 1) (pw a 3)"
          using pw unfolding faithful_pow_def by blast
        have c: "curve pw x_per 3 =
                   (if pw a 3 = PosInf \<or> pw a 3 = NegInf then Inl OverflowError
                    else Inr (fsub (Finite 1) (pw a 3)))"
          using a1 by (simp add: curve_def t Finite float_pow_3 Let_def)
        show ?thesis
        proof (cases "pw a 3")
          case NaN
          with r1 show ?thesis by simp
        next
          case NegInf
          with r1 show ?thesis by simp
        next
          case PosInf
          have "\<not> fle (Finite (- 1)) x_per"
          proof
            assume "fle (Finite (- 1)) x_per"
            then have "z \<le> 2" using \<open>x_per = Finite x\<close> by (simp add: z_def)
            then have "fle (round64 z) (Finite 2)"
              by (intro round64_le_float is_float64_2) simp_all
            with Finite have a2: "a \<le> 2" by simp
            have "a powr 3 \<le> 2 powr 3" using a a2 by (intro powr_mono2) simp_all
            also have "(2 :: real) powr 3 \<le> 2 ^ 1023" by simp
            finally have "a powr 3 \<le> 2 ^ 1023" .
            moreover have "0 < a \<and> is_float64 (2 ^ 1023)" using a1 is_float64_big by simp
            ultimately have "fle (pw a 3) (Finite (2 ^ 1023))"
              using pw unfolding faithful_pow_def by blast
            with PosInf show False by simp
          qed
          with c PosInf show ?thesis by simp
        next
          case (Finite c0)
          with r1 have c0: "1 \<le> c0" by simp
          have "fle (round64 (1 - c0)) (Finite (1 / 2 ^ 52))"
            using c0 by (intro round64_le_float is_float64_eps) simp_all
          then show ?thesis using c Finite by (simp add: band0_iff)
        qed
      qed
    qed
  qed
  from main show "curve pw x_per 3 = Inl OverflowError
         \<or> (\<exists>y_per. curve pw x_per 3 = Inr y_per \<and> band0 y_per)" by blast
  from main show "fle (Finite (- 1)) x_per \<Longrightarrow> \<exists>y_per. curve pw x_per 3 = Inr y_per \<and> band0 y_per"
    by blast
qed

lemma curve_inverse_one:
  "curve pw (Finite 1) third = Inr (Finite 1)"
  by (simp add: curve_def float_pow_third round64_1)

lemma powr_third_lower:
  assumes "1 - 1 / 2 ^ 52 \<le> a" "0 < a"
  shows "1 - 1 / 2 ^ 52 \<le> a powr third"
proof (cases "1 \<le> a")
  case True
  then have "1 \<le> a powr third"
    using third_bounds(1) by (intro ge_one_powr_ge_zero) simp_all
  then show ?thesis by simp
next
  case False
  then have "a powr 1 \<le> a powr third"
    using assms(2) third_bounds(2) by (intro powr_mono') simp_all
  then show ?thesis using assms by simp
qed

lemma powr_third_upper:
  assumes "0 < a" "a < 2 ^ 1024"
  shows "a powr third \<le> 2 ^ 1023"
proof -
  have "a powr third \<le> (2 ^ 1024) powr third"
    using assms third_bounds(1) by (intro powr_mono2) simp_all
  also have "(2 ^ 1024 :: real) = 2 powr 1024" by simp
  also have "(2 powr 1024) powr third = 2 powr (1024 * third)" by (rule powr_powr)
  also have "\<dots> \<le> 2 powr 1023" using third_bounds(3) by (intro powr_mono) simp_all
  also have "\<dots> = 2 ^ 1023" by simp
  finally show ?thesis .
qed

lemma curve_inverse_band0:
  assumes pw: "faithful_pow pw" and b: "band0 x_per"
  shows "\<exists>y_per. curve pw x_per third = Inr y_per \<and> band0 y_per"
proof (cases x_per)
  case NaN
  with b show ?thesis by (simp add: band0_iff)
next
  case PosInf
  with b show ?thesis by (simp add: band0_iff)
next
  case NegInf
  then show ?thesis by (simp add: curve_def float_pow_third band0_iff)
next
  case (Finite x)
  with b have x: "x \<le> 1 / 2 ^ 52" by (simp add: band0_iff)
  define z where "z = 1 - x"
  have z: "1 - 1 / 2 ^ 52 \<le> z" using x by (simp add: z_def)
  then have z0: "0 \<le> z" by simp
  have t: "fsub (Finite 1) x_per = round64 z" by (simp add: Finite z_def)
  have tge: "fle (Finite (1 - 1 / 2 ^ 52)) (round64 z)"
    using z z0 by (intro round64_ge_float is_float64_1_eps)
  show ?thesis
  proof (cases "round64 z")
    case NaN
    with tge show ?thesis by simp
  next
    case NegInf
    with tge show ?thesis by simp
  next
    case PosInf
    then show ?thesis by (simp add: curve_def t float_pow_third band0_iff)
  next
    case (Finite a)
    with tge have a: "1 - 1 / 2 ^ 52 \<le> a" by simp
    then have a0: "0 < a" by simp
    have ab: "a < 2 ^ 1024" using round64_Finite_bound[OF Finite] by simp
    have ab': "\<bar>a\<bar> = a" using a0 by simp
    have fp: "float_pow pw (Finite a) third =
                (let r = (if a = 1 then Finite 1 else pw a third)
                 in if r = PosInf \<or> r = NegInf then Inl OverflowError else Inr (PowFloat r))"
      using a0 by (simp add: float_pow_third ab')
    show ?thesis
    proof (cases "a = 1")
      case True
      with fp have "float_pow pw (Finite a) third = Inr (PowFloat (Finite 1))" by simp
      then show ?thesis
        by (simp add: curve_def t Finite band0_iff)
    next
      case False
      have "0 < a \<and> is_float64 (1 - 1 / 2 ^ 52)" "0 < a \<and> is_float64 (2 ^ 1023)"
        using a0 is_float64_1_eps is_float64_big by blast+
      then have "fle (Finite (1 - 1 / 2 ^ 52)) (pw a third)"
        "fle (pw a third) (Finite (2 ^ 1023))"
        using pw powr_third_lower[OF a a0] powr_third_upper[OF a0 ab]
        unfolding faithful_pow_def by blast+
      then obtain c where c: "pw a third = Finite c" "1 - 1 / 2 ^ 52 \<le> c"
        by (cases "pw a third") auto
      have "fle (round64 (1 - c)) (Finite (1 / 2 ^ 52))"
        using c by (intro round64_le_float is_float64_eps) simp_all
      then show ?thesis
        using False c by (simp add: curve_def t Finite fp band0_iff)
    qed
  qed
qed

lemma interpolate_linear:
  assumes "x_per_of x_cur x0 x1 = Inr x_per"
  shows "interpolate pw x_cur x0 x1 y0 y1 ''linear'' =
           (if band0 x_per then Inr y0 else if band1 x_per then Inr y1
            else scale x_per y0 y1)"
  using assms
  by (simp add: interpolate_def y_per_of_def INTERPOLATION_FUNCS_def band0_def band1_def)

lemma interpolate_cubic:
  assumes "x_per_of x_cur x0 x1 = Inr x_per"
  shows "interpolate pw x_cur x0 x1 y0 y1 ''cubic'' =
           (case curve pw x_per 3 of
              Inl e \<Rightarrow> Inl e
            | Inr y_per \<Rightarrow> if band0 y_per then Inr y0 else if band1 y_per then Inr y1
                           else scale y_per y0 y1)"
  using assms
  by (simp add: interpolate_def y_per_of_def INTERPOLATION_FUNCS_def band0_def band1_def)

lemma interpolate_inverse_cubic:
  assumes "x_per_of x_cur x0 x1 = Inr x_per"
  shows "interpolate pw x_cur x0 x1 y0 y1 ''inverse_cubic'' =
           (case curve pw x_per third of
              Inl e \<Rightarrow> Inl e
            | Inr y_per \<Rightarrow> if band0 y_per then Inr y0 else if band1 y_per then Inr y1
                           else scale y_per y0 y1)"
  using assms
  by (simp add: interpolate_def y_per_of_def INTERPOLATION_FUNCS_def band0_def band1_def)

lemma num_sub_self:
  assumes "exact_float x"
  shows "\<exists>c. num_sub x x = Inr c \<and> to_float c = Inr (Finite 0)"
  using assms
  by (cases x rule: exact_float.cases)
     (simp_all add: num_sub.simps float_op_def float_of_int_def)

lemma truediv_zero_dividend:
  assumes "to_float c = Inr (Finite 0)" "d \<noteq> Finite 0" "d \<noteq> NaN"
  shows "num_truediv c (PFloat d) = Inr (Finite 0)"
proof -
  have "fdiv_nz (Finite 0) d = Finite 0"
    using assms(2,3) by (cases d) simp_all
  with assms show ?thesis
    by (cases c) (simp_all add: num_truediv.simps float_op_def fdiv_def)
qed

lemma x_per_of_start:
  assumes "exact_operands x0 x1" "\<not> py_eq x1 x0"
  shows "x_per_of x0 x0 x1 = Inr (Finite 0)"
proof (cases "is_int x0 \<and> is_int x1")
  case True
  then obtain i0 i1 where x: "x0 = PInt i0" "x1 = PInt i1"
    by (cases x0; cases x1) auto
  with assms(2) have "i1 - i0 \<noteq> 0" by simp
  then show ?thesis
    by (simp add: x x_per_of_def num_sub.simps num_truediv.simps)
next
  case False
  with assms have ex: "exact_float x0" "exact_float x1" by (auto simp: exact_operands_def)
  then obtain a b where t: "to_float x0 = Inr (Finite a)" "to_float x1 = Inr (Finite b)"
    and f: "is_float64 a" "is_float64 b" and e: "py_eq x1 x0 \<longleftrightarrow> b = a"
    by (rule exact_float_pair)
  have "\<not> (is_int x1 \<and> is_int x0)" using False by auto
  from num_sub_float[OF this t(2) t(1)]
  have s: "num_sub x1 x0 = Inr (PFloat (round64 (b - a)))" by (simp add: fsub_def)
  from assms(2) e have "a \<noteq> b" by auto
  with round64_diff_zero[OF f] have nz: "round64 (b - a) \<noteq> Finite 0" by simp
  from num_sub_self[OF ex(1)] obtain c where
    c: "num_sub x0 x0 = Inr c" "to_float c = Inr (Finite 0)" by blast
  show ?thesis
    using truediv_zero_dividend[OF c(2) nz] by (simp add: x_per_of_def c(1) s)
qed

lemma x_per_of_end:
  assumes "exact_operands x0 x1" "\<not> py_eq x1 x0" "num_sub x1 x0 = Inr d" "finite_num d"
  shows "x_per_of x1 x0 x1 = Inr (Finite 1)"
proof (cases "is_int x0 \<and> is_int x1")
  case True
  then obtain i0 i1 where x: "x0 = PInt i0" "x1 = PInt i1"
    by (cases x0; cases x1) auto
  with assms(2) have "i1 - i0 \<noteq> 0" by simp
  then show ?thesis
    by (simp add: x x_per_of_def num_sub.simps num_truediv.simps round64_1)
next
  case False
  with assms have "exact_float x0" "exact_float x1" by (auto simp: exact_operands_def)
  then obtain a b where t: "to_float x0 = Inr (Finite a)" "to_float x1 = Inr (Finite b)"
    and f: "is_float64 a" "is_float64 b" and e: "py_eq x1 x0 \<longleftrightarrow> b = a"
    by (rule exact_float_pair)
  have "\<not> (is_int x1 \<and> is_int x0)" using False by auto
  from num_sub_float[OF this t(2) t(1)]
  have s: "num_sub x1 x0 = Inr (PFloat (round64 (b - a)))" by (simp add: fsub_def)
  from assms(2) e have "a \<noteq> b" by auto
  with round64_diff_zero[OF f] have nz: "round64 (b - a) \<noteq> Finite 0" by simp
  from assms(3) s have d: "d = PFloat (round64 (b - a))" by simp
  with assms(4) obtain r where r: "round64 (b - a) = Finite r"
    by (cases "round64 (b - a)") auto
  with nz have "r \<noteq> 0" by simp
  then show ?thesis
    by (simp add: x_per_of_def s r num_truediv.simps float_op_def fdiv_def round64_1)
qed

text \<open>
  C1 as stated fails in three ways. With \<open>x0 = -2.0 ** 1023\<close> and \<open>x1 = 2.0 ** 1023\<close> the
  difference \<open>x1 - x0\<close> overflows, and \<open>interpolate(x1, x0, x1, 0, 1, "linear")\<close> is NaN,
  not \<open>y1\<close>. With \<open>cubic\<close> the normalized progress \<open>2.0 ** -53\<close> lies in the epsilon band
  of 0 and the result is \<open>3 * 2.0 ** -53\<close>, not \<open>y0\<close>. With \<open>inverse_cubic\<close> the normalized
  progress \<open>1 + 2.0 ** -52\<close> lies in the epsilon band of 1 and the call raises
  \<open>TypeError\<close> (the power of a negative number is complex).
\<close>

theorem interpolate_band_counterexample:
  "\<not> py_eq (PFloat (Finite (2 ^ 1023))) (PFloat (Finite (- (2 ^ 1023))))
   \<and> interpolate pow_nearest (PFloat (Finite (2 ^ 1023))) (PFloat (Finite (- (2 ^ 1023))))
        (PFloat (Finite (2 ^ 1023))) (PInt 0) (PInt 1) ''linear'' = Inr (PFloat NaN)
   \<and> x_per_of (PFloat (Finite (1 / 2 ^ 53))) (PFloat (Finite 0)) (PFloat (Finite 1))
        = Inr (Finite (1 / 2 ^ 53))
   \<and> band0 (Finite (1 / 2 ^ 53))
   \<and> interpolate pow_nearest (PFloat (Finite (1 / 2 ^ 53))) (PFloat (Finite 0))
        (PFloat (Finite 1)) (PInt 0) (PInt 1) ''cubic'' = Inr (PFloat (Finite (3 / 2 ^ 53)))
   \<and> x_per_of (PFloat (Finite (1 + 1 / 2 ^ 52))) (PFloat (Finite 0)) (PFloat (Finite 1))
        = Inr (Finite (1 + 1 / 2 ^ 52))
   \<and> band1 (Finite (1 + 1 / 2 ^ 52))
   \<and> interpolate pow_nearest (PFloat (Finite (1 + 1 / 2 ^ 52))) (PFloat (Finite 0))
        (PFloat (Finite 1)) (PInt 0) (PInt 1) ''inverse_cubic'' = Inl TypeError"
  using cex_linear cex_cubic cex_inverse by simp

text \<open>
  C1, amended: for \<open>x0\<close>, \<open>x1\<close> that are both ints, or each a finite float or an int that a
  float holds without rounding, with \<open>x1 != x0\<close>, \<open>interpolate\<close> with \<open>linear\<close> returns \<open>y0\<close>
  at \<open>x0\<close>, and \<open>y1\<close> at \<open>x1\<close> when \<open>x1 - x0\<close> is finite. Whenever the normalized progress
  \<open>x_per\<close> is computed: in the epsilon band of 0 the result is exactly \<open>y0\<close> for \<open>linear\<close> and
  \<open>inverse_cubic\<close>, and for \<open>cubic\<close> when \<open>x_per\<close> is at most \<open>2 ** -54\<close>; in the epsilon band
  of 1 it is exactly \<open>y1\<close> for \<open>linear\<close> and \<open>cubic\<close>, and for \<open>inverse_cubic\<close> when \<open>x_per\<close> is
  1. For \<open>cubic\<close> this is up to an \<open>OverflowError\<close> of the cube, which is not raised for
  \<open>x_per\<close> from -1 to 2. The curves are taken with a \<open>pow\<close> of the C library that is
  faithful.
\<close>

theorem interpolate_ends:
  "(exact_operands x0 x1 \<and> \<not> py_eq x1 x0 \<longrightarrow>
      interpolate pw x0 x0 x1 y0 y1 ''linear'' = Inr y0
      \<and> ((\<exists>d. num_sub x1 x0 = Inr d \<and> finite_num d) \<longrightarrow>
           interpolate pw x1 x0 x1 y0 y1 ''linear'' = Inr y1))
   \<and> (x_per_of x_cur x0 x1 = Inr x_per \<longrightarrow>
        (band0 x_per \<longrightarrow> interpolate pw x_cur x0 x1 y0 y1 ''linear'' = Inr y0)
      \<and> (band1 x_per \<longrightarrow> interpolate pw x_cur x0 x1 y0 y1 ''linear'' = Inr y1)
      \<and> (faithful_pow pw \<and> band0 x_per \<longrightarrow>
           interpolate pw x_cur x0 x1 y0 y1 ''inverse_cubic'' = Inr y0)
      \<and> (x_per = Finite 1 \<longrightarrow>
           interpolate pw x_cur x0 x1 y0 y1 ''inverse_cubic'' = Inr y1)
      \<and> (faithful_pow pw \<and> band1 x_per \<longrightarrow>
           interpolate pw x_cur x0 x1 y0 y1 ''cubic'' = Inr y1
           \<or> interpolate pw x_cur x0 x1 y0 y1 ''cubic'' = Inl OverflowError)
      \<and> (faithful_pow pw \<and> band1 x_per \<and> fle x_per (Finite 2) \<longrightarrow>
           interpolate pw x_cur x0 x1 y0 y1 ''cubic'' = Inr y1)
      \<and> (faithful_pow pw \<and> fle x_per (Finite (1 / 2 ^ 54)) \<longrightarrow>
           interpolate pw x_cur x0 x1 y0 y1 ''cubic'' = Inr y0
           \<or> interpolate pw x_cur x0 x1 y0 y1 ''cubic'' = Inl OverflowError)
      \<and> (faithful_pow pw \<and> fle (Finite (- 1)) x_per \<and> fle x_per (Finite (1 / 2 ^ 54)) \<longrightarrow>
           interpolate pw x_cur x0 x1 y0 y1 ''cubic'' = Inr y0))"
proof (intro conjI impI)
  assume h: "exact_operands x0 x1 \<and> \<not> py_eq x1 x0"
  have "band0 (Finite 0)" by (simp add: band0_iff)
  with x_per_of_start[of x0 x1] h
  show "interpolate pw x0 x0 x1 y0 y1 ''linear'' = Inr y0"
    by (simp add: interpolate_linear)
  assume "\<exists>d. num_sub x1 x0 = Inr d \<and> finite_num d"
  then obtain d where d: "num_sub x1 x0 = Inr d" "finite_num d" by blast
  have "band1 (Finite 1)" "\<not> band0 (Finite 1)" by (simp_all add: band0_iff band1_iff)
  with x_per_of_end[OF _ _ d] h
  show "interpolate pw x1 x0 x1 y0 y1 ''linear'' = Inr y1"
    by (simp add: interpolate_linear)
next
  assume x: "x_per_of x_cur x0 x1 = Inr x_per"
  show "interpolate pw x_cur x0 x1 y0 y1 ''linear'' = Inr y0" if "band0 x_per"
    using that by (simp add: interpolate_linear[OF x])
  show "interpolate pw x_cur x0 x1 y0 y1 ''linear'' = Inr y1" if "band1 x_per"
    using that band1_not_band0[OF that] by (simp add: interpolate_linear[OF x])
  show "interpolate pw x_cur x0 x1 y0 y1 ''inverse_cubic'' = Inr y0"
    if "faithful_pow pw \<and> band0 x_per"
    using curve_inverse_band0[of pw x_per] that
    by (auto simp: interpolate_inverse_cubic[OF x])
  show "interpolate pw x_cur x0 x1 y0 y1 ''inverse_cubic'' = Inr y1"
    if "x_per = Finite 1"
    using that by (simp add: interpolate_inverse_cubic[OF x] curve_inverse_one band0_iff band1_iff)
  show "interpolate pw x_cur x0 x1 y0 y1 ''cubic'' = Inr y1
        \<or> interpolate pw x_cur x0 x1 y0 y1 ''cubic'' = Inl OverflowError"
    if "faithful_pow pw \<and> band1 x_per"
    using curve_cubic_band1(1)[of pw x_per] that band1_not_band0
    by (auto simp: interpolate_cubic[OF x])
  show "interpolate pw x_cur x0 x1 y0 y1 ''cubic'' = Inr y1"
    if "faithful_pow pw \<and> band1 x_per \<and> fle x_per (Finite 2)"
    using curve_cubic_band1(2)[of pw x_per] that band1_not_band0
    by (auto simp: interpolate_cubic[OF x])
  show "interpolate pw x_cur x0 x1 y0 y1 ''cubic'' = Inr y0
        \<or> interpolate pw x_cur x0 x1 y0 y1 ''cubic'' = Inl OverflowError"
    if "faithful_pow pw \<and> fle x_per (Finite (1 / 2 ^ 54))"
    using curve_cubic_band0(1)[of pw x_per] that
    by (auto simp: interpolate_cubic[OF x])
  show "interpolate pw x_cur x0 x1 y0 y1 ''cubic'' = Inr y0"
    if "faithful_pow pw \<and> fle (Finite (- 1)) x_per \<and> fle x_per (Finite (1 / 2 ^ 54))"
    using curve_cubic_band0(2)[of pw x_per] that
    by (auto simp: interpolate_cubic[OF x])
qed

theorem interpolate_ends_witness:
  "exact_operands (PFloat (Finite 0)) (PFloat (Finite 1))
   \<and> \<not> py_eq (PFloat (Finite 1)) (PFloat (Finite 0))
   \<and> num_sub (PFloat (Finite 1)) (PFloat (Finite 0)) = Inr (PFloat (Finite 1))
   \<and> finite_num (PFloat (Finite 1))
   \<and> faithful_pow pow_nearest
   \<and> x_per_of (PFloat (Finite 0)) (PFloat (Finite 0)) (PFloat (Finite 1)) = Inr (Finite 0)
   \<and> band0 (Finite 0)
   \<and> fle (Finite (- 1)) (Finite 0) \<and> fle (Finite 0) (Finite (1 / 2 ^ 54))
   \<and> x_per_of (PFloat (Finite 1)) (PFloat (Finite 0)) (PFloat (Finite 1)) = Inr (Finite 1)
   \<and> band1 (Finite 1) \<and> fle (Finite 1) (Finite 2)
   \<and> interpolate pow_nearest (PFloat (Finite 0)) (PFloat (Finite 0)) (PFloat (Finite 1))
        (PInt 5) (PInt 7) ''linear'' = Inr (PInt 5)
   \<and> interpolate pow_nearest (PFloat (Finite 1)) (PFloat (Finite 0)) (PFloat (Finite 1))
        (PInt 5) (PInt 7) ''linear'' = Inr (PInt 7)
   \<and> interpolate pow_nearest (PFloat (Finite 0)) (PFloat (Finite 0)) (PFloat (Finite 1))
        (PInt 5) (PInt 7) ''cubic'' = Inr (PInt 5)
   \<and> interpolate pow_nearest (PFloat (Finite 1)) (PFloat (Finite 0)) (PFloat (Finite 1))
        (PInt 5) (PInt 7) ''cubic'' = Inr (PInt 7)
   \<and> interpolate pow_nearest (PFloat (Finite 0)) (PFloat (Finite 0)) (PFloat (Finite 1))
        (PInt 5) (PInt 7) ''inverse_cubic'' = Inr (PInt 5)
   \<and> interpolate pow_nearest (PFloat (Finite 1)) (PFloat (Finite 0)) (PFloat (Finite 1))
        (PInt 5) (PInt 7) ''inverse_cubic'' = Inr (PInt 7)"
proof -
  have n: "\<not> py_eq (PFloat (Finite 1)) (PFloat (Finite 0))" by simp
  have d: "num_sub (PFloat (Finite 1)) (PFloat (Finite 0)) = Inr (PFloat (Finite 1))"
    by (simp add: num_sub.simps float_op_def round64_1)
  have x0: "x_per_of (PFloat (Finite 0)) (PFloat (Finite 0)) (PFloat (Finite 1)) = Inr (Finite 0)"
    by (rule x_per_of_start[OF exact_operands_f0_f1 n])
  have x1: "x_per_of (PFloat (Finite 1)) (PFloat (Finite 0)) (PFloat (Finite 1)) = Inr (Finite 1)"
    by (rule x_per_of_end[OF exact_operands_f0_f1 n d]) simp
  have b: "band0 (Finite 0)" "band1 (Finite 1)" "fle (Finite 1) (Finite 2)"
    "fle (Finite (- 1)) (Finite 0)" "fle (Finite 0) (Finite (1 / 2 ^ 54))"
    by (simp_all add: band0_iff band1_iff)
  from interpolate_ends [where pw = pow_nearest and ?x0.0 = "PFloat (Finite 0)"
      and ?x1.0 = "PFloat (Finite 1)" and ?y0.0 = "PInt 5" and ?y1.0 = "PInt 7"
      and x_cur = "PFloat (Finite 0)" and x_per = "Finite 0"]
    interpolate_ends [where pw = pow_nearest and ?x0.0 = "PFloat (Finite 0)"
      and ?x1.0 = "PFloat (Finite 1)" and ?y0.0 = "PInt 5" and ?y1.0 = "PInt 7"
      and x_cur = "PFloat (Finite 1)" and x_per = "Finite 1"]
    exact_operands_f0_f1 n d x0 x1 b faithful_pow_nearest
  show ?thesis by simp
qed

subsection \<open>interpolated_integral\<close>

text \<open>
  C7: \<open>interpolated_integral\<close> of the empty list is 0.0, and of a singleton list
  \<open>[(x, y)]\<close> it is \<open>y\<close>; in particular \<open>interpolated_integral([(5, 3)])\<close> is 3.
\<close>

theorem interpolated_integral_short:
  "fst (interpolated_integral []) = Finite 0
   \<and> fst (interpolated_integral [(x, y)]) = Finite y
   \<and> fst (interpolated_integral [(5, 3)]) = Finite 3"
  by (simp add: interpolated_integral_def)

lemma integral_step_last: "length s - 1 \<le> k \<Longrightarrow> integral_step s k a = a"
  by (simp add: integral_step_def split: prod.splits)

lemma integral_step_exact:
  assumes k: "Suc k < length s"
    and e: "exact_area (s ! k) (s ! (k + 1))"
    and f: "is_float64 (S + trapezoid (s ! k) (s ! (k + 1)))"
  shows "integral_step s k (Finite S) = Finite (S + trapezoid (s ! k) (s ! (k + 1)))"
proof -
  obtain x y where p: "s ! k = (x, y)" by (cases "s ! k")
  obtain x' y' where q: "s ! Suc k = (x', y')" by (cases "s ! Suc k")
  define dx where "dx = x' - x"
  define dy where "dy = y' - y"
  from e have r: "round64 dx = Finite dx" "round64 (y * dx) = Finite (y * dx)"
    "round64 dy = Finite dy" "round64 (dy * dx) = Finite (dy * dx)"
    "round64 (dy * dx / 2) = Finite (dy * dx / 2)"
    "round64 (y * dx + dy * dx / 2) = Finite (y * dx + dy * dx / 2)"
    by (simp_all add: exact_area_def p q Let_def dx_def dy_def is_float64_def)
  have t: "trapezoid (s ! k) (s ! Suc k) = y * dx + dy * dx / 2"
    by (simp add: trapezoid_def p q dx_def dy_def field_simps)
  from f have "is_float64 (S + trapezoid (s ! k) (s ! Suc k))" by simp
  then have rs: "round64 (S + (y * dx + dy * dx / 2)) = Finite (S + (y * dx + dy * dx / 2))"
    unfolding t by (simp only: is_float64_def)
  from k have n: "\<not> length s - 1 \<le> k" by arith
  have "integral_step s k (Finite S) =
          fadd (Finite S)
            (fadd (fmul (Finite y) (fsub (Finite x') (Finite x)))
               (fdiv_nz (fmul (fsub (Finite y') (Finite y)) (fsub (Finite x') (Finite x)))
                  (Finite 2)))"
    using n q by (simp add: integral_step_def p Let_def del: fsub_Finite)
  also have "fsub (Finite x') (Finite x) = Finite dx"
    using r(1) by (simp add: dx_def)
  also have "fsub (Finite y') (Finite y) = Finite dy"
    using r(3) by (simp add: dy_def)
  also have "fmul (Finite dy) (Finite dx) = Finite (dy * dx)" using r(4) by simp
  also have "fdiv_nz (Finite (dy * dx)) (Finite 2) = Finite (dy * dx / 2)" using r(5) by simp
  also have "fmul (Finite y) (Finite dx) = Finite (y * dx)" using r(2) by simp
  also have "fadd (Finite (y * dx)) (Finite (dy * dx / 2)) = Finite (y * dx + dy * dx / 2)"
    using r(6) by simp
  also have "fadd (Finite S) (Finite (y * dx + dy * dx / 2))
               = Finite (S + (y * dx + dy * dx / 2))"
    using rs by simp
  finally show ?thesis by (simp add: t)
qed

lemma exact_run_nth:
  assumes "exact_run s" "k < length s - 1"
  shows "exact_area (s ! k) (s ! (k + 1))"
    and "is_float64 (\<Sum>i < Suc k. trapezoid (s ! i) (s ! (i + 1)))"
  using assms by (auto simp: exact_run_def list_all_iff)

lemma fold_integral_step_exact:
  assumes "exact_run s" "k \<le> length s - 1"
  shows "fold (integral_step s) [0..<k] (Finite 0)
           = Finite (\<Sum>i < k. trapezoid (s ! i) (s ! (i + 1)))"
  using assms(2)
proof (induction k)
  case 0
  show ?case by simp
next
  case (Suc k)
  then have k: "k < length s - 1" by simp
  then have sk: "Suc k < length s" by arith
  have ih: "fold (integral_step s) [0..<k] (Finite 0)
              = Finite (\<Sum>i < k. trapezoid (s ! i) (s ! (i + 1)))"
    using Suc by simp
  have f: "is_float64 ((\<Sum>i < k. trapezoid (s ! i) (s ! (i + 1)))
                       + trapezoid (s ! k) (s ! (k + 1)))"
    using exact_run_nth(2)[OF assms(1) k] by simp
  show ?case
    using integral_step_exact[OF sk exact_run_nth(1)[OF assms(1) k] f]
    by (simp add: ih)
qed

lemma interpolated_integral_exact:
  assumes "2 \<le> length ms" "exact_run (sort_key fst ms)"
  shows "fst (interpolated_integral ms) = Finite (trapezoid_sum (sort_key fst ms))"
proof -
  define s where "s = sort_key fst ms"
  have l: "length s = length ms" by (simp add: s_def)
  with assms(1) have "0 < length s" by linarith
  then obtain n where n: "length s = Suc n" by (auto simp: gr0_conv_Suc)
  have "fold (integral_step s) [0..<length s] (Finite 0)
          = integral_step s n (fold (integral_step s) [0..<n] (Finite 0))"
    by (simp add: n)
  also have "\<dots> = fold (integral_step s) [0..<n] (Finite 0)"
    by (rule integral_step_last) (simp add: n)
  also have "\<dots> = Finite (\<Sum>i < n. trapezoid (s ! i) (s ! (i + 1)))"
    using assms(2) by (intro fold_integral_step_exact) (simp_all add: s_def[symmetric] n)
  finally have r: "fold (integral_step s) [0..<length s] (Finite 0)
                     = Finite (\<Sum>i < n. trapezoid (s ! i) (s ! (i + 1)))" .
  have i: "interpolated_integral ms
             = (fold (integral_step s) [0..<length s] (Finite 0), s)"
    using assms(1) unfolding interpolated_integral_def Let_def s_def
    by (simp only: not_less[symmetric]) auto
  show ?thesis
    unfolding i fst_conv r by (simp add: trapezoid_sum_def s_def[symmetric] n)

qed

lemma round64_half: "round64 (1 / 2) = Finite (1 / 2)"
  by (simp add: round64_eval[of "- 1"] ev)

lemma round64_m1: "round64 (- 1) = Finite (- 1)"
  by (simp add: round64_eval[of 0] ev)

lemma round64_mhalf: "round64 (- (1 / 2)) = Finite (- (1 / 2))"
  by (simp add: round64_eval[of "- 1"] ev)

lemma round64_mbig: "round64 (- (2 ^ 1023)) = Finite (- (2 ^ 1023))"
  by (simp add: round64_eval[of 1023] ev)

lemma round64_53m: "round64 (2 ^ 53 - 1) = Finite (2 ^ 53 - 1)"
  by (simp add: round64_eval[of 52] ev)

lemma round64_52h: "round64 (2 ^ 52 - 1 / 2) = Finite (2 ^ 52 - 1 / 2)"
  by (simp add: round64_eval[of 51] ev)

lemma round64_52: "round64 (2 ^ 52) = Finite (2 ^ 52)"
  by (simp add: round64_eval[of 52] ev)

lemma round64_52t: "round64 (2 ^ 52 + 1 / 2) = Finite (2 ^ 52)"
  by (simp add: round64_eval[of 52] ev)

lemma round64_52_1: "round64 (2 ^ 52 + 1) = Finite (2 ^ 52 + 1)"
  by (simp add: round64_eval[of 52] ev)

lemmas vals2 = vals round64_52_1[simplified] round64_half[simplified] round64_m1[simplified] round64_mhalf[simplified]
  round64_mbig[simplified] round64_53m[simplified] round64_52h[simplified]
  round64_52[simplified] round64_52t[simplified]

lemmas integral_ev = interpolated_integral_def integral_step_def Let_def fsub_def
  inf_of_sign_def trapezoid_sum_def trapezoid_def lessThan_Suc


lemma interpolated_integral_triangle:
  "fst (interpolated_integral [(0, 0), (1, 1), (2, 0)]) = Finite 1"
  by (simp add: integral_ev vals2)

lemma exact_run_triangle: "exact_run [(0, 0), (1, 1), (2, 0)]"
  by (simp add: exact_run_def exact_area_def is_float64_def integral_ev vals2 upt_rec)



text \<open>
  C9: \<open>interpolated_integral\<close> changes its argument: after a call on a list of at least
  two samples the caller's list is the input sorted by x ascending (the same samples,
  reordered), which differs from the input wherever that was not sorted.
\<close>

theorem interpolated_integral_sorts_argument:
  "2 \<le> length ms \<Longrightarrow>
     snd (interpolated_integral ms) = sort_key fst ms
     \<and> sorted (map fst (snd (interpolated_integral ms)))
     \<and> mset (snd (interpolated_integral ms)) = mset ms"
  by (simp add: interpolated_integral_def Let_def)

theorem interpolated_integral_sorts_argument_witness:
  "2 \<le> length [(2 :: real, 0 :: real), (0, 0), (1, 1)]
   \<and> snd (interpolated_integral [(2, 0), (0, 0), (1, 1)]) = [(0, 0), (1, 1), (2, 0)]
   \<and> snd (interpolated_integral [(2, 0), (0, 0), (1, 1)]) \<noteq> [(2, 0), (0, 0), (1, 1)]"
  using interpolated_integral_sorts_argument [of "[(2, 0), (0, 0), (1, 1)]"]
  by simp

subsection \<open>bucket_iterable\<close>

lemma slice_append: "slice_to n xs @ slice_from n xs = xs"
  by (simp add: slice_to_def slice_from_def)

lemma bucket_step_inv:
  "bucket_step nb bc b (vl, acc) = (vl', acc') \<Longrightarrow> map snd acc' @ vl' = map snd acc @ vl"
  by (auto simp: bucket_step_def Let_def comp_def slice_append split: if_splits)

lemma fold_bucket_step_inv:
  "fold (bucket_step nb bc) bs (vl, acc) = (vl', acc')
     \<Longrightarrow> map snd acc' @ vl' = map snd acc @ vl"
proof (induction bs arbitrary: vl acc)
  case Nil
  then show ?case by simp
next
  case (Cons b bs)
  obtain vl1 acc1 where s: "bucket_step nb bc b (vl, acc) = (vl1, acc1)"
    by (cases "bucket_step nb bc b (vl, acc)")
  with Cons.prems have "fold (bucket_step nb bc) bs (vl1, acc1) = (vl', acc')" by simp
  then have "map snd acc' @ vl' = map snd acc1 @ vl1" by (rule Cons.IH)
  with bucket_step_inv[OF s] show ?case by simp
qed

lemma range_int_last:
  assumes "1 \<le> n"
  shows "range_int n = range_int (n - 1) @ [n - 1]"
proof -
  from assms have "nat n = Suc (nat (n - 1))" by simp
  then show ?thesis using assms by (simp add: range_int_def)
qed

lemma bucket_step_final: "fst (bucket_step nb bc (nb - 1) st) = []"
  by (simp add: bucket_step_def Let_def split: prod.splits)

lemma fold_bucket_step_all:
  assumes "1 \<le> nb"
  shows "map snd (snd (fold (bucket_step nb bc) (range_int nb) (vl, acc))) = map snd acc @ vl"
proof -
  obtain vl' acc' where f: "fold (bucket_step nb bc) (range_int nb) (vl, acc) = (vl', acc')"
    by (cases "fold (bucket_step nb bc) (range_int nb) (vl, acc)")
  have "fst (fold (bucket_step nb bc) (range_int nb) (vl, acc)) = []"
    by (simp add: range_int_last[OF assms] bucket_step_final)
  with f have "vl' = []" by simp
  with fold_bucket_step_inv[OF f] f show ?thesis by simp
qed

lemma mset_list_sort: "mset (list_sort key r xs) = mset xs"
  by (simp add: list_sort_def)

lemma bucket_iterable_values:
  assumes "1 \<le> num_buckets"
  shows "\<exists>r. bucket_iterable val num_buckets edge_percent sort_highest key = Inr r
          \<and> map snd r = list_sort key sort_highest val"
  using assms
  by (auto simp add: bucket_iterable_def Let_def fold_bucket_step_all comp_def slice_append)

lemma py_round_5: "py_round 5 = 5" by (simp add: py_round_def)
lemma py_round_95_3: "py_round (95 / 3) = 32" by (simp add: py_round_def Let_def)
lemma range_int_3: "range_int 3 = [0, 1, 2]"
  by (simp add: range_int_def upt_rec)

lemma bucket_iterable_100_value:
  assumes "length val = 100"
  shows "bucket_iterable val 3 (5 / 100) sort_highest key =
    (let s = list_sort key sort_highest val in
     Inr (map (\<lambda>v. (- 1, v)) (take 5 s) @ map (\<lambda>v. (0, v)) (take 32 (drop 5 s))
        @ map (\<lambda>v. (1, v)) (take 32 (drop 37 s)) @ map (\<lambda>v. (2, v)) (drop 69 s)))"
proof -
  have l: "length (list_sort key sort_highest val) = 100"
    using assms by (simp add: list_sort_def)
  show ?thesis
    by (simp add: bucket_iterable_def Let_def l py_round_5 py_round_95_3 range_int_3
        bucket_step_def slice_to_def slice_from_def)
qed

text \<open>
  C3: for at least one bucket and any \<open>edge_percent\<close>, \<open>bucket_iterable\<close> returns one
  (bucket, value) pair for each item of the input: the values of the result are the
  items of the input, each as often as the input holds it, so none is dropped and none
  is in two buckets.
\<close>

theorem bucket_iterable_partition:
  assumes "1 \<le> num_buckets"
  shows "\<exists>r. bucket_iterable val num_buckets edge_percent sort_highest key = Inr r
          \<and> mset (map snd r) = mset val \<and> length r = length val"
proof -
  from bucket_iterable_values[OF assms] obtain r where
    r: "bucket_iterable val num_buckets edge_percent sort_highest key = Inr r"
       "map snd r = list_sort key sort_highest val" by blast
  from r(2) have "mset (map snd r) = mset val" by (simp add: mset_list_sort)
  moreover from r(2) have "length (map snd r) = length val"
    by (simp add: list_sort_def)
  ultimately show ?thesis using r(1) by simp
qed

theorem bucket_iterable_partition_witness:
  "(1::int) \<le> 2
   \<and> (\<exists>r. bucket_iterable [3, 1, 2 :: nat] 2 (1 / 3) True (\<lambda>v. v) = Inr r
          \<and> mset (map snd r) = mset [3, 1, 2] \<and> length r = length [3, 1, 2 :: nat])"
  using bucket_iterable_partition [of 2 "[3, 1, 2 :: nat]" "1 / 3" True "\<lambda>v. v"]
  by simp

text \<open>
  C5: on any input of 100 items, \<open>edge_percent\<close> 0.05 and 3 buckets give 100 pairs: 5
  with bucket -1 and the other 95 in the buckets 0, 1 and 2 (32, 32 and 31 of them).
\<close>

theorem bucket_iterable_100:
  assumes "length val = 100"
  shows "\<exists>r. bucket_iterable val 3 (5 / 100) sort_highest key = Inr r
          \<and> length r = 100
          \<and> length (filter (\<lambda>p. fst p = - 1) r) = 5
          \<and> length (filter (\<lambda>p. fst p = 0) r) = 32
          \<and> length (filter (\<lambda>p. fst p = 1) r) = 32
          \<and> length (filter (\<lambda>p. fst p = 2) r) = 31
          \<and> length (filter (\<lambda>p. fst p \<in> {0, 1, 2}) r) = 95
          \<and> mset (map snd r) = mset val"
proof -
  have l: "length (list_sort key sort_highest val) = 100"
    using assms by (simp add: list_sort_def)
  define s where "s = list_sort key sort_highest val"
  define r where "r = map (\<lambda>v. (- 1 :: int, v)) (take 5 s) @ map (\<lambda>v. (0, v)) (take 32 (drop 5 s))
        @ map (\<lambda>v. (1, v)) (take 32 (drop 37 s)) @ map (\<lambda>v. (2, v)) (drop 69 s)"
  have ls: "length s = 100" using l by (simp add: s_def)
  have v: "bucket_iterable val 3 (5 / 100) sort_highest key = Inr r"
    using bucket_iterable_100_value[OF assms, of sort_highest key] by (simp add: r_def s_def Let_def)
  have "length r = 100" by (simp add: r_def ls)
  moreover have "length (filter (\<lambda>p. fst p = - 1) r) = 5"
    by (simp add: r_def ls filter_map comp_def)
  moreover have "length (filter (\<lambda>p. fst p = 0) r) = 32"
    by (simp add: r_def ls filter_map comp_def)
  moreover have "length (filter (\<lambda>p. fst p = 1) r) = 32"
    by (simp add: r_def ls filter_map comp_def)
  moreover have "length (filter (\<lambda>p. fst p = 2) r) = 31"
    by (simp add: r_def ls filter_map comp_def)
  moreover have "length (filter (\<lambda>p. fst p \<in> {0, 1, 2}) r) = 95"
    by (simp add: r_def ls filter_map comp_def)
  moreover have "mset (map snd r) = mset val"
  proof -
    have "map snd r = take 5 s @ take 32 (drop 5 s) @ take 32 (drop 37 s) @ drop 69 s"
      by (simp add: r_def comp_def)
    also have "\<dots> = s"
    proof -
      have a: "take 32 (drop 37 s) @ drop 69 s = drop 37 s"
        using append_take_drop_id[of 32 "drop 37 s"] by simp
      have b: "take 32 (drop 5 s) @ drop 37 s = drop 5 s"
        using append_take_drop_id[of 32 "drop 5 s"] by simp
      show ?thesis by (simp only: a b append_take_drop_id)
    qed
    finally show ?thesis by (simp add: s_def mset_list_sort)
  qed
  ultimately show ?thesis using v by blast
qed

theorem bucket_iterable_100_witness:
  "length [0..<100] = 100
   \<and> (\<exists>r. bucket_iterable [0..<100] 3 (5 / 100) True (\<lambda>v. v) = Inr r
          \<and> length r = 100
          \<and> length (filter (\<lambda>p. fst p = - 1) r) = 5
          \<and> length (filter (\<lambda>p. fst p = 0) r) = 32
          \<and> length (filter (\<lambda>p. fst p = 1) r) = 32
          \<and> length (filter (\<lambda>p. fst p = 2) r) = 31
          \<and> length (filter (\<lambda>p. fst p \<in> {0, 1, 2}) r) = 95)"
proof -
  have h: "length [0..<100] = 100" by simp
  from bucket_iterable_100 [OF h, of True "\<lambda>v. v"] show ?thesis using h by blast
qed

subsection \<open>create_unique_dir\<close>

lemma format_04d_0: "format_04d 0 = ''0000''"
  by (simp add: format_04d_def zfill_def eval_nat_numeral)
lemma format_04d_1: "format_04d 1 = ''0001''"
  by (simp add: format_04d_def zfill_def eval_nat_numeral)

lemma create_unique_dir_Some:
  assumes "create_unique_dir clean_path path n fs = Some r"
  shows "snd r = fs \<and> fst r \<notin> fs"
  by (rule create_unique_dir.raw_induct
        [where P = "\<lambda>c p n fs r. snd r = fs \<and> fst r \<notin> fs", OF _ assms])
     (auto simp: Let_def split: if_splits)

lemma create_unique_dir_free:
  "clean_path (path @ ''-'' @ format_04d n) \<notin> fs \<Longrightarrow>
    create_unique_dir clean_path path n fs = Some (clean_path (path @ ''-'' @ format_04d n), fs)"
  by (subst create_unique_dir.simps) (simp add: Let_def)

lemma create_unique_dir_taken:
  "clean_path (path @ ''-'' @ format_04d n) \<in> fs \<Longrightarrow>
    create_unique_dir clean_path path n fs = create_unique_dir clean_path path (n + 1) fs"
  by (subst create_unique_dir.simps) (simp add: Let_def)

lemma create_unique_dir_returns:
  assumes "clean_path (path @ ''-'' @ format_04d (n + int k)) \<notin> fs"
  shows "\<exists>p. create_unique_dir clean_path path n fs = Some (p, fs)"
  using assms
proof (induction k arbitrary: n)
  case 0
  then show ?case by (simp add: create_unique_dir_free)
next
  case (Suc k)
  show ?case
  proof (cases "clean_path (path @ ''-'' @ format_04d n) \<in> fs")
    case True
    from Suc.prems have "clean_path (path @ ''-'' @ format_04d ((n + 1) + int k)) \<notin> fs"
      by (simp add: algebra_simps)
    from Suc.IH[OF this] show ?thesis
      using create_unique_dir_taken[of clean_path path n fs] True by simp
  next
    case False
    then show ?thesis by (simp add: create_unique_dir_free)
  qed
qed

text \<open>
  C4 as stated fails: on a file system without the candidates, two calls in succession
  on \<open>/tmp/run\<close> both return \<open>/tmp/run-0000\<close>.
\<close>

theorem create_unique_dir_twice_counterexample:
  "create_unique_dir_twice id ''/tmp/run'' {}
     = Some ((''/tmp/run-0000'', ''/tmp/run-0000''), {})"
  by (simp add: create_unique_dir_twice_def create_unique_dir_free format_04d_0)

text \<open>
  C4, amended: \<open>create_unique_dir\<close> creates nothing. A call that returns leaves the file
  system as it was and returns a path that does not exist in it, so a second call in
  succession returns the same path; the second path differs from the first (and is
  still new) when the first path has been created in between.
\<close>

theorem create_unique_dir_reads_only:
  assumes "create_unique_dir clean_path path 0 fs = Some (p1, fs1)"
  shows "fs1 = fs \<and> p1 \<notin> fs
     \<and> create_unique_dir clean_path path 0 fs1 = Some (p1, fs1)
     \<and> create_unique_dir_twice clean_path path fs = Some ((p1, p1), fs)
     \<and> (\<forall>p2 fs2. create_unique_dir clean_path path 0 (insert p1 fs1) = Some (p2, fs2)
           \<longrightarrow> p2 \<noteq> p1 \<and> p2 \<notin> fs)"
proof -
  from create_unique_dir_Some[OF assms] have a: "fs1 = fs" "p1 \<notin> fs" by simp_all
  have b: "create_unique_dir clean_path path 0 fs1 = Some (p1, fs1)"
    using assms a by simp
  have c: "create_unique_dir_twice clean_path path fs = Some ((p1, p1), fs)"
    using assms a by (simp add: create_unique_dir_twice_def)
  have d: "p2 \<noteq> p1 \<and> p2 \<notin> fs"
    if "create_unique_dir clean_path path 0 (insert p1 fs1) = Some (p2, fs2)" for p2 fs2
    using create_unique_dir_Some[OF that] a by auto
  from a b c d show ?thesis by blast
qed

theorem create_unique_dir_reads_only_witness:
  "create_unique_dir id ''/tmp/run'' 0 {} = Some (''/tmp/run-0000'', {})
   \<and> create_unique_dir_twice id ''/tmp/run'' {}
       = Some ((''/tmp/run-0000'', ''/tmp/run-0000''), {})
   \<and> create_unique_dir id ''/tmp/run'' 0 (insert ''/tmp/run-0000'' {})
       = Some (''/tmp/run-0001'', {''/tmp/run-0000''})
   \<and> ''/tmp/run-0001'' \<noteq> ''/tmp/run-0000''"
proof -
  have h: "create_unique_dir id ''/tmp/run'' 0 {} = Some (''/tmp/run-0000'', {})"
    by (simp add: create_unique_dir_free format_04d_0)
  have s: "create_unique_dir id ''/tmp/run'' 0 (insert ''/tmp/run-0000'' {})
       = Some (''/tmp/run-0001'', {''/tmp/run-0000''})"
    by (simp add: create_unique_dir_taken format_04d_0 create_unique_dir_free format_04d_1)
  from create_unique_dir_reads_only [OF h] h s show ?thesis by simp
qed

end
